theory Spec2Isabelle
  imports Main "HOL-Library.Char_ord" "HOL-Library.List_Lexorder"
begin

section \<open>Strings\<close>

text \<open>
  A Go string is a sequence of bytes; it is modelled as a \<open>string\<close> (a list of
  8-bit characters). The functions of package \<open>strings\<close> that \<open>main.go\<close> calls are
  written out here.
\<close>

fun HasPrefix :: "string \<Rightarrow> string \<Rightarrow> bool" where
  "HasPrefix s [] = True"
| "HasPrefix [] (p # ps) = False"
| "HasPrefix (c # s) (p # ps) = (c = p \<and> HasPrefix s ps)"

text \<open>\<open>strings.Contains(s, substr)\<close>: \<open>substr\<close> occurs somewhere in \<open>s\<close>.\<close>

fun Contains :: "string \<Rightarrow> string \<Rightarrow> bool" where
  "Contains [] substr = (substr = [])"
| "Contains (c # s) substr = (HasPrefix (c # s) substr \<or> Contains s substr)"

text \<open>
  \<open>strings.Split(s, sep)\<close> for a separator of one byte (the source only splits at
  \<open>"/"\<close>): the pieces between the separators, \<open>n + 1\<close> pieces for \<open>n\<close> separators,
  so the empty string gives one empty piece.
\<close>

fun Split :: "string \<Rightarrow> char \<Rightarrow> string list" where
  "Split [] sep = [[]]"
| "Split (c # s) sep =
     (if c = sep then [] # Split s sep
      else (case Split s sep of
              [] \<Rightarrow> [[c]]
            | part # parts \<Rightarrow> (c # part) # parts))"

text \<open>
  \<open>strings.ToLower\<close> is a function of Go's library. On a string of ASCII bytes it moves
  \<open>'A'..'Z'\<close> to \<open>'a'..'z'\<close> and keeps every other byte, which is \<open>ToLower_ascii\<close>
  below; on other strings it lowers the letters of Unicode, which is not written out
  here. The functions of the source that call it take the lowering function as their
  first argument, \<open>lower\<close>, so that what is proved of them holds of the library's
  function. Where a property needs what the function does, it asks for
  \<open>lowers_ascii lower\<close> and speaks of ASCII strings.
\<close>

definition toLowerByte :: "char \<Rightarrow> char" where
  "toLowerByte c =
     (if CHR ''A'' \<le> c \<and> c \<le> CHR ''Z'' then char_of (of_char c + (32::nat)) else c)"

definition ToLower_ascii :: "string \<Rightarrow> string" where
  "ToLower_ascii s = map toLowerByte s"

definition is_ascii :: "string \<Rightarrow> bool" where
  "is_ascii s \<longleftrightarrow> (\<forall>c \<in> set s. c < CHR 0x80)"

definition lowers_ascii :: "(string \<Rightarrow> string) \<Rightarrow> bool" where
  "lowers_ascii lower \<longleftrightarrow> (\<forall>s. is_ascii s \<longrightarrow> lower s = ToLower_ascii s)"

section \<open>Domain models\<close>

datatype Project = Project (ProjectID: string) (Name: string) (Status: string)

datatype MetadataItem = MetadataItem (Key: string) (Value: string)

text \<open>\<open>Items\<close> is a slice that may be \<open>nil\<close>: \<open>None\<close> is the nil slice.\<close>

datatype Metadata = Metadata (Items: "MetadataItem list option")

text \<open>\<open>Metadata\<close> is a pointer that may be \<open>nil\<close>.\<close>

datatype VM = VM (Name: string) (Zone: string) (Status: string) (Metadata: "Metadata option")

subsection \<open>VMStatus\<close>

type_synonym VMStatus = string

definition StatusRunning :: VMStatus where
  "StatusRunning = ''RUNNING''"

definition StatusTerminated :: VMStatus where
  "StatusTerminated = ''TERMINATED''"

definition StatusProvisioning :: VMStatus where
  "StatusProvisioning = ''PROVISIONING''"

definition StatusStopping :: VMStatus where
  "StatusStopping = ''STOPPING''"

text \<open>The \<open>switch\<close> of \<open>GetAbbreviation\<close>, its cases in the order of the source.\<close>

definition GetAbbreviation :: "VMStatus \<Rightarrow> string" where
  "GetAbbreviation s =
     (if s = StatusRunning then ''R''
      else if s = StatusTerminated then ''T''
      else if s = StatusProvisioning then ''P''
      else if s = StatusStopping then ''S''
      else ''?'')"

subsection \<open>GetInstanceGroup\<close>

text \<open>
  The inner loop \<open>for i, part := range parts\<close>: it returns \<open>parts[i+1]\<close> at the first
  \<open>i\<close> with \<open>part == "instanceGroupManagers"\<close> and \<open>i+1 < len(parts)\<close>, and falls
  through (\<open>None\<close>) when there is no such \<open>i\<close>.
\<close>

fun scan_parts :: "string list \<Rightarrow> string option" where
  "scan_parts (part # next_part # parts) =
     (if part = ''instanceGroupManagers'' then Some next_part
      else scan_parts (next_part # parts))"
| "scan_parts parts = None"

text \<open>The outer loop \<open>for _, item := range vm.Metadata.Items\<close> and the final \<open>return ""\<close>.\<close>

fun scan_items :: "MetadataItem list \<Rightarrow> string" where
  "scan_items [] = []"
| "scan_items (item # items) =
     (if Key item = ''created-by'' \<and> Contains (Value item) ''instanceGroupManagers/'' then
        (case scan_parts (Split (Value item) (CHR ''/'')) of
           Some groupName \<Rightarrow> groupName
         | None \<Rightarrow> scan_items items)
      else scan_items items)"

definition GetInstanceGroup :: "VM \<Rightarrow> string" where
  "GetInstanceGroup vm =
     (case VM.Metadata vm of
        None \<Rightarrow> []
      | Some md \<Rightarrow>
          (case Items md of
             None \<Rightarrow> []
           | Some items \<Rightarrow> scan_items items))"

section \<open>Tree data structure\<close>

datatype NodeType = GroupNode | InstanceNode

text \<open>
  The source holds nodes by pointer. The functions of this section only read nodes and
  build new ones; the one write of the program is to \<open>IsExpanded\<close> of a node of the
  manager's own list, which the model does by replacing that node in the list. So a
  node is a value here, with its children inside it. (The section on the node store
  below models \<open>Filter\<close> over pointers, for what it shares and what it allocates.)
  A field that a struct literal of the source leaves out has Go's zero value:
  \<open>nil\<close> (\<open>None\<close>, \<open>[]\<close>), \<open>""\<close>, \<open>false\<close>, \<open>0\<close>.
\<close>

datatype TreeNode = TreeNode
  (Type: NodeType)
  (Name: string)
  (VM: "VM option")
  (GroupName: string)
  (IsExpanded: bool)
  (Children: "TreeNode list")
  (Depth: int)

subsection \<open>BuildFromVMs\<close>

text \<open>
  \<open>groups\<close> is a Go map from group name to a slice of instances. It is an association
  list with one entry per key here. Reading a missing key gives the nil slice.
\<close>

type_synonym groups_map = "(string \<times> VM list) list"

definition groups_get :: "groups_map \<Rightarrow> string \<Rightarrow> VM list" where
  "groups_get groups k = (case map_of groups k of None \<Rightarrow> [] | Some vms \<Rightarrow> vms)"

fun groups_set :: "groups_map \<Rightarrow> string \<Rightarrow> VM list \<Rightarrow> groups_map" where
  "groups_set [] k v = [(k, v)]"
| "groups_set ((k', v') # rest) k v =
     (if k' = k then (k, v) # rest else (k', v') # groups_set rest k v)"

text \<open>The first loop: \<open>for i := range vms\<close>, with its two accumulators.\<close>

fun partition_vms :: "VM list \<Rightarrow> groups_map \<Rightarrow> VM list \<Rightarrow> groups_map \<times> VM list" where
  "partition_vms [] groups ungrouped = (groups, ungrouped)"
| "partition_vms (vm # vms) groups ungrouped =
     (let groupName = GetInstanceGroup vm in
      if groupName \<noteq> [] then
        partition_vms vms (groups_set groups groupName (groups_get groups groupName @ [vm]))
          ungrouped
      else partition_vms vms groups (ungrouped @ [vm]))"

text \<open>The loop that appends one instance node per member to \<open>groupNode.Children\<close>.\<close>

fun add_children :: "string \<Rightarrow> VM list \<Rightarrow> TreeNode list \<Rightarrow> TreeNode list" where
  "add_children groupName [] children = children"
| "add_children groupName (vm # vms) children =
     add_children groupName vms
       (children @ [TreeNode InstanceNode (VM.Name vm) (Some vm) groupName False [] 1])"

text \<open>The loop \<open>for _, groupName := range groupNames\<close>.\<close>

fun add_group_nodes :: "groups_map \<Rightarrow> string list \<Rightarrow> TreeNode list \<Rightarrow> TreeNode list" where
  "add_group_nodes groups [] nodes = nodes"
| "add_group_nodes groups (groupName # groupNames) nodes =
     add_group_nodes groups groupNames
       (nodes @ [TreeNode GroupNode groupName None groupName False
                   (add_children groupName (groups_get groups groupName) []) 0])"

text \<open>The loop \<open>for _, vm := range ungrouped\<close>.\<close>

fun add_ungrouped :: "VM list \<Rightarrow> TreeNode list \<Rightarrow> TreeNode list" where
  "add_ungrouped [] nodes = nodes"
| "add_ungrouped (vm # vms) nodes =
     add_ungrouped vms (nodes @ [TreeNode InstanceNode (VM.Name vm) (Some vm) [] False [] 0])"

text \<open>
  \<open>BuildFromVMs\<close> returns the new value of \<open>tm.nodes\<close>. Go visits the keys of a map in
  an order it does not fix; the model visits them in the order of their first insertion.
  \<open>sort.Strings\<close> (ascending, bytewise) then gives the same list for every order of
  visit, see \<open>sort_Strings_order\<close>.
\<close>

definition BuildFromVMs :: "VM list \<Rightarrow> TreeNode list" where
  "BuildFromVMs vms =
     (case partition_vms vms [] [] of
        (groups, ungrouped) \<Rightarrow>
          (let groupNames = sort (map fst groups);
               nodes = add_group_nodes groups groupNames []
           in add_ungrouped ungrouped nodes))"

subsection \<open>FlattenForDisplay\<close>

text \<open>The method reads \<open>tm.nodes\<close>, which is its argument here.\<close>

fun flatten_loop :: "TreeNode list \<Rightarrow> TreeNode list \<Rightarrow> TreeNode list" where
  "flatten_loop [] result = result"
| "flatten_loop (node # nodes) result =
     (let result = result @ [node] in
      if Type node = GroupNode \<and> IsExpanded node then
        flatten_loop nodes (result @ Children node)
      else flatten_loop nodes result)"

definition FlattenForDisplay :: "TreeNode list \<Rightarrow> TreeNode list" where
  "FlattenForDisplay nodes = flatten_loop nodes []"

subsection \<open>ToggleNode\<close>

definition set_IsExpanded :: "bool \<Rightarrow> TreeNode \<Rightarrow> TreeNode" where
  "set_IsExpanded b node =
     TreeNode (Type node) (TreeNode.Name node) (TreeNode.VM node) (GroupName node) b
       (Children node) (Depth node)"

text \<open>
  The loop over \<open>tm.nodes\<close> with its \<open>break\<close>: the first group node of that name has
  its flag negated, and the nodes after it are not visited.
\<close>

fun toggle_loop :: "string \<Rightarrow> TreeNode list \<Rightarrow> TreeNode list" where
  "toggle_loop name [] = []"
| "toggle_loop name (node # nodes) =
     (if Type node = GroupNode \<and> TreeNode.Name node = name then
        set_IsExpanded (\<not> IsExpanded node) node # nodes
      else node # toggle_loop name nodes)"

text \<open>\<open>ToggleNode\<close> takes \<open>tm.nodes\<close> and the target, and returns the new \<open>tm.nodes\<close>.\<close>

definition ToggleNode :: "TreeNode list \<Rightarrow> TreeNode \<Rightarrow> TreeNode list" where
  "ToggleNode nodes targetNode =
     (if Type targetNode \<noteq> GroupNode then nodes
      else toggle_loop (TreeNode.Name targetNode) nodes)"

section \<open>Filtering service\<close>

text \<open>The loop over \<open>node.Children\<close> that collects \<open>matchingChildren\<close>.\<close>

fun matching_children :: "(string \<Rightarrow> string) \<Rightarrow> string \<Rightarrow> TreeNode list \<Rightarrow> TreeNode list \<Rightarrow> TreeNode list" where
  "matching_children lower filterLower [] matchingChildren = matchingChildren"
| "matching_children lower filterLower (child # children) matchingChildren =
     (if Contains (lower (TreeNode.Name child)) filterLower then
        matching_children lower filterLower children (matchingChildren @ [child])
      else matching_children lower filterLower children matchingChildren)"

text \<open>The loop \<open>for _, node := range nodes\<close>, with \<open>filtered\<close> as its accumulator.\<close>

fun filter_loop :: "(string \<Rightarrow> string) \<Rightarrow> string \<Rightarrow> TreeNode list \<Rightarrow> TreeNode list \<Rightarrow> TreeNode list" where
  "filter_loop lower filterLower [] filtered = filtered"
| "filter_loop lower filterLower (node # nodes) filtered =
     (if Type node = GroupNode then
        (if Contains (lower (TreeNode.Name node)) filterLower then
           filter_loop lower filterLower nodes
             (filtered @ [TreeNode GroupNode (TreeNode.Name node) None (GroupName node) True
                            (Children node) (Depth node)])
         else
           (let matchingChildren = matching_children lower filterLower (Children node) [] in
            if length matchingChildren > 0 then
              filter_loop lower filterLower nodes
                (filtered @ [TreeNode GroupNode (TreeNode.Name node) None (GroupName node) True
                               matchingChildren (Depth node)])
            else filter_loop lower filterLower nodes filtered))
      else
        (if Contains (lower (TreeNode.Name node)) filterLower then
           filter_loop lower filterLower nodes (filtered @ [node])
         else filter_loop lower filterLower nodes filtered))"

definition Filter :: "(string \<Rightarrow> string) \<Rightarrow> TreeNode list \<Rightarrow> string \<Rightarrow> TreeNode list" where
  "Filter lower nodes filterText =
     (if filterText = [] then nodes
      else filter_loop lower (lower filterText) nodes [])"

section \<open>Messages, commands and application state\<close>

text \<open>
  A panic of the Go runtime ends the program. The functions that can panic return
  \<open>Inl\<close> of the panic, and \<open>Inr\<close> of their result otherwise.
\<close>

datatype panic = NilPointerDereference | NegativeRepeatCount | RepeatOverflow

text \<open>
  The messages that \<open>Update\<close> tells apart. A key message carries the name of the key,
  which is what \<open>msg.String()\<close> returns; the error of an \<open>ErrorMsg\<close> is its text.
\<close>

datatype Msg =
    WindowSizeMsg int int
  | KeyMsg string
  | ProjectsLoadedMsg "Project list"
  | VMsLoadedMsg "VM list"
  | ErrorMsg string
  | OtherMsg

text \<open>
  The commands that the controller returns: \<open>nil\<close>, \<open>tea.Quit\<close>, the two loads of
  \<open>GCPService\<close>, and whatever the list widget returns from its own \<open>Update\<close>.
\<close>

datatype Cmd = NoCmd | Quit | LoadProjects | LoadVMs string | ListCmd nat

datatype AppState =
    StateLoadingProjects
  | StateSelectingProject
  | StateLoadingVMs
  | StateSelectingVM
  | StateReadyToConnect
  | StateQuitting

text \<open>The fields of \<open>Styles\<close>; a style of \<open>lipgloss\<close> is known by its field here.\<close>

datatype Style =
    StyleTitle | StyleItem | StyleSelectedItem | StylePagination | StyleHelp | StyleQuitText
  | StyleNoItems | StyleFilter | StyleRunning | StyleTerminated | StyleProvisioning
  | StyleStopping | StyleGroup | StyleExpanded | StyleCollapsed

text \<open>
  The list widget (\<open>bubbles/list\<close>) and the rendering of a style (\<open>lipgloss\<close>) are
  libraries outside the repository. The controller is modelled over any widget state
  \<open>'l\<close> with the operations the source calls, so what is proved of the controller
  holds whatever these operations do. The record also carries the lowering function
  of package \<open>strings\<close> that the controller's call of \<open>Filter\<close> uses.
\<close>

record 'l ui =
  strings_ToLower :: "string \<Rightarrow> string"
  list_New :: "string list \<Rightarrow> int \<Rightarrow> int \<Rightarrow> 'l"
  list_Index :: "'l \<Rightarrow> int"
  list_SelectedItem :: "'l \<Rightarrow> string option"
  list_SetItems :: "string list \<Rightarrow> 'l \<Rightarrow> 'l"
  list_SetTitle :: "string \<Rightarrow> 'l \<Rightarrow> 'l"
  list_SetWidth :: "int \<Rightarrow> 'l \<Rightarrow> 'l"
  list_SetHeight :: "int \<Rightarrow> 'l \<Rightarrow> 'l"
  list_Update :: "Msg \<Rightarrow> 'l \<Rightarrow> 'l \<times> Cmd"
  list_View :: "'l \<Rightarrow> string"
  style_Render :: "Style \<Rightarrow> string \<Rightarrow> string"

text \<open>
  The struct \<open>model\<close>. The services have no state of their own but the node list of the
  tree manager, which the model reaches through a pointer: \<open>treeManager\<close> is that list,
  so a write to a node of the manager is a write to this field.
  \<open>currentlyDisplayedNodes\<close> holds pointers to nodes of the manager or of a filtered
  copy. It holds the node values here: every handler that writes to a node calls
  \<open>updateVMList\<close> before it returns, which computes the rows anew, so no row is read
  after a write to its node.
\<close>

record 'l model =
  state :: AppState
  quitting :: bool
  treeManager :: "TreeNode list"
  projects :: "Project list"
  selectedProject :: string
  selectedVM :: "VM option"
  err :: "string option"
  list :: 'l
  currentlyDisplayedNodes :: "TreeNode list"
  filtering :: bool
  filterText :: string

definition DefaultWidth :: int where "DefaultWidth = 20"
definition DefaultHeight :: int where "DefaultHeight = 14"
definition MinHeight :: int where "MinHeight = 5"
definition UIOverhead :: int where "UIOverhead = 7"

section \<open>Rendering a node\<close>

text \<open>\<open>GetStyle\<close>, with the style known by its field of \<open>Styles\<close>.\<close>

definition GetStyle :: "VMStatus \<Rightarrow> Style" where
  "GetStyle s =
     (if s = StatusRunning then StyleRunning
      else if s = StatusTerminated then StyleTerminated
      else if s = StatusProvisioning then StyleProvisioning
      else if s = StatusStopping then StyleStopping
      else StyleItem)"

text \<open>The verb \<open>%d\<close> of \<open>fmt.Sprintf\<close> on a length: the decimal digits of a number.\<close>

fun itoa :: "nat \<Rightarrow> string" where
  "itoa n =
     (if n < 10 then [char_of (48 + n)]
      else itoa (n div 10) @ [char_of (48 + n mod 10)])"

text \<open>
  \<open>strings.Repeat(s, count)\<close> panics when \<open>count\<close> is negative and when the length of
  the result does not fit Go's \<open>int\<close> (64 bits).
\<close>

definition Repeat :: "string \<Rightarrow> int \<Rightarrow> panic + string" where
  "Repeat s count =
     (if count < 0 then Inl NegativeRepeatCount
      else if int (length s) * count > 2 ^ 63 - 1 then Inl RepeatOverflow
      else Inr (concat (replicate (nat count) s)))"

text \<open>
  The glyphs of a collapsed and of an expanded group, as the bytes of their UTF-8
  encoding (U+25B6 and U+25BC).
\<close>

definition icon_collapsed :: string where
  "icon_collapsed = [CHR 0xE2, CHR 0x96, CHR 0xB6]"

definition icon_expanded :: string where
  "icon_expanded = [CHR 0xE2, CHR 0x96, CHR 0xBC]"

text \<open>
  \<open>RenderNode\<close>. An instance node reads \<open>node.VM.Status\<close>, which panics when \<open>VM\<close> is
  \<open>nil\<close>.
\<close>

definition RenderNode :: "'l ui \<Rightarrow> TreeNode \<Rightarrow> panic + string" where
  "RenderNode ui node =
     (case Repeat ''  '' (Depth node) of
        Inl e \<Rightarrow> Inl e
      | Inr indent \<Rightarrow>
          if Type node = GroupNode then
            (let icon = (if IsExpanded node then icon_expanded else icon_collapsed);
                 style = (if IsExpanded node then StyleExpanded else StyleCollapsed)
             in Inr (indent @ style_Render ui style icon @ '' ''
                       @ style_Render ui StyleGroup (TreeNode.Name node)
                       @ '' ('' @ itoa (length (Children node)) @ '' instances)''))
          else
            (case TreeNode.VM node of
               None \<Rightarrow> Inl NilPointerDereference
             | Some vm \<Rightarrow>
                 (let status = VM.Status vm;
                      coloredStatus =
                        style_Render ui (GetStyle status) (''['' @ GetAbbreviation status @ '']'')
                  in Inr (indent @ coloredStatus @ '' '' @ TreeNode.Name node))))"

section \<open>Model implementation\<close>

text \<open>
  \<open>newModel\<close>. The further settings of the new list (status bar, widget filtering,
  styles) are presentation only and are part of \<open>list_New\<close> here.
\<close>

definition newModel :: "'l ui \<Rightarrow> string \<Rightarrow> 'l model" where
  "newModel ui project =
     (let st = (if project \<noteq> [] then StateLoadingVMs else StateLoadingProjects);
          title = (if project \<noteq> [] then ''Loading VMs...'' else ''Loading GCP Projects...'');
          l = list_SetTitle ui title (list_New ui [] DefaultWidth DefaultHeight)
      in \<lparr> state = st, quitting = False, treeManager = [], projects = [],
           selectedProject = project, selectedVM = None, err = None, list = l,
           currentlyDisplayedNodes = [], filtering = False, filterText = [] \<rparr>)"

definition getCurrentNode :: "'l ui \<Rightarrow> 'l model \<Rightarrow> TreeNode option" where
  "getCurrentNode ui m =
     (if list_Index ui (list m) < 0 \<or> length (currentlyDisplayedNodes m) = 0 then None
      else if list_Index ui (list m) \<ge> int (length (currentlyDisplayedNodes m)) then None
      else Some (currentlyDisplayedNodes m ! nat (list_Index ui (list m))))"

text \<open>The loop of \<open>updateVMList\<close> that renders every row; it stops at the first panic.\<close>

fun render_items :: "'l ui \<Rightarrow> TreeNode list \<Rightarrow> panic + string list" where
  "render_items ui [] = Inr []"
| "render_items ui (node # flatNodes) =
     (case RenderNode ui node of
        Inl e \<Rightarrow> Inl e
      | Inr item \<Rightarrow>
          (case render_items ui flatNodes of
             Inl e \<Rightarrow> Inl e
           | Inr items \<Rightarrow> Inr (item # items)))"

definition newline :: string where
  "newline = [CHR 0x0A]"

text \<open>
  \<open>updateVMList\<close>. The source puts the nodes to show into the manager for the call of
  \<open>FlattenForDisplay\<close> and restores the manager's own list after it.
\<close>

definition updateVMList :: "'l ui \<Rightarrow> 'l model \<Rightarrow> panic + 'l model" where
  "updateVMList ui m =
     (let nodesToShow =
            (if filtering m \<and> filterText m \<noteq> [] then Filter (strings_ToLower ui) (treeManager m) (filterText m)
             else treeManager m);
          flatNodes = FlattenForDisplay nodesToShow
      in case render_items ui flatNodes of
           Inl e \<Rightarrow> Inl e
         | Inr items \<Rightarrow>
             (let baseTitle = ''Sunrise Parabellum'' @ newline @ ''Select VM from project: ''
                                @ selectedProject m;
                  title = (if filtering m then
                             baseTitle @ newline @ style_Render ui StyleFilter ''Filter:''
                               @ '' '' @ filterText m
                           else baseTitle)
              in Inr (m\<lparr> currentlyDisplayedNodes := flatNodes,
                          list := list_SetTitle ui title (list_SetItems ui items (list m)) \<rparr>)))"

text \<open>A handler that ends with \<open>return m, cmd\<close> after a call that may have panicked.\<close>

definition return_with :: "Cmd \<Rightarrow> panic + 'm \<Rightarrow> panic + ('m \<times> Cmd)" where
  "return_with cmd r = (case r of Inl e \<Rightarrow> Inl e | Inr m \<Rightarrow> Inr (m, cmd))"

definition isValidFilterChar :: "char \<Rightarrow> bool" where
  "isValidFilterChar c \<longleftrightarrow>
     (CHR ''a'' \<le> c \<and> c \<le> CHR ''z'') \<or> (CHR ''A'' \<le> c \<and> c \<le> CHR ''Z'') \<or>
     (CHR ''0'' \<le> c \<and> c \<le> CHR ''9'') \<or> c = CHR ''-'' \<or> c = CHR ''_'' \<or> c = CHR '' ''"

text \<open>
  \<open>handleFilteringInput\<close>. On \<open>enter\<close> over a group row the source runs the loop of
  \<open>ToggleNode\<close> itself, over \<open>m.treeManager.GetNodes()\<close> and with the name of the
  current row: that loop is \<open>toggle_loop\<close>.
\<close>

definition handleFilteringInput :: "'l ui \<Rightarrow> string \<Rightarrow> 'l model \<Rightarrow> panic + ('l model \<times> Cmd)" where
  "handleFilteringInput ui keypress m =
     (if keypress = ''esc'' then
        return_with NoCmd (updateVMList ui (m\<lparr> filtering := False, filterText := [] \<rparr>))
      else if keypress = ''backspace'' \<or> keypress = ''ctrl+h'' then
        (if length (filterText m) > 0 then
           return_with NoCmd (updateVMList ui (m\<lparr> filterText := butlast (filterText m) \<rparr>))
         else Inr (m, NoCmd))
      else if keypress = ''enter'' then
        (case getCurrentNode ui m of
           None \<Rightarrow> Inr (m, NoCmd)
         | Some currentNode \<Rightarrow>
             if Type currentNode = InstanceNode then
               Inr (m\<lparr> selectedVM := TreeNode.VM currentNode, state := StateReadyToConnect \<rparr>, Quit)
             else if Type currentNode = GroupNode then
               return_with NoCmd
                 (updateVMList ui
                    (m\<lparr> treeManager := toggle_loop (TreeNode.Name currentNode) (treeManager m) \<rparr>))
             else Inr (m, NoCmd))
      else if length keypress = 1 \<and> isValidFilterChar (hd keypress) then
        return_with NoCmd (updateVMList ui (m\<lparr> filterText := filterText m @ keypress \<rparr>))
      else Inr (m, NoCmd))"

definition shouldHandleNavigation :: "'l model \<Rightarrow> string \<Rightarrow> bool" where
  "shouldHandleNavigation m keypress =
     (if state m \<noteq> StateSelectingProject \<and> state m \<noteq> StateSelectingVM then False
      else keypress \<in> set [''up'', ''k'', ''down'', ''j'', ''pgup'', ''pgdown'', ''home'', ''end''])"

definition handleEnterOnVM :: "'l ui \<Rightarrow> 'l model \<Rightarrow> panic + ('l model \<times> Cmd)" where
  "handleEnterOnVM ui m =
     (case getCurrentNode ui m of
        None \<Rightarrow> Inr (m, NoCmd)
      | Some currentNode \<Rightarrow>
          if Type currentNode = GroupNode then
            return_with NoCmd
              (updateVMList ui (m\<lparr> treeManager := ToggleNode (treeManager m) currentNode \<rparr>))
          else if Type currentNode = InstanceNode then
            Inr (m\<lparr> selectedVM := TreeNode.VM currentNode, state := StateReadyToConnect \<rparr>, Quit)
          else Inr (m, NoCmd))"

text \<open>The list items of the projects: \<open>fmt.Sprintf("%s (%s)", ProjectID, Name)\<close>.\<close>

definition project_items :: "Project list \<Rightarrow> string list" where
  "project_items ps = map (\<lambda>project. ProjectID project @ '' ('' @ Project.Name project @ '')'') ps"

definition goBackToProjectSelection :: "'l ui \<Rightarrow> 'l model \<Rightarrow> 'l model \<times> Cmd" where
  "goBackToProjectSelection ui m =
     (m\<lparr> list := list_SetTitle ui ''Select GCP Project''
                    (list_SetItems ui (project_items (projects m)) (list m)),
          state := StateSelectingProject,
          currentlyDisplayedNodes := [] \<rparr>, NoCmd)"

definition handleVMSelection :: "'l ui \<Rightarrow> string \<Rightarrow> 'l model \<Rightarrow> panic + ('l model \<times> Cmd)" where
  "handleVMSelection ui keypress m =
     (if keypress = ''right'' then
        (case getCurrentNode ui m of
           Some currentNode \<Rightarrow>
             if Type currentNode = GroupNode \<and> \<not> IsExpanded currentNode then
               return_with NoCmd
                 (updateVMList ui (m\<lparr> treeManager := ToggleNode (treeManager m) currentNode \<rparr>))
             else Inr (m, NoCmd)
         | None \<Rightarrow> Inr (m, NoCmd))
      else if keypress = ''left'' then
        (case getCurrentNode ui m of
           Some currentNode \<Rightarrow>
             if Type currentNode = GroupNode \<and> IsExpanded currentNode then
               return_with NoCmd
                 (updateVMList ui (m\<lparr> treeManager := ToggleNode (treeManager m) currentNode \<rparr>))
             else Inr (m, NoCmd)
         | None \<Rightarrow> Inr (m, NoCmd))
      else if keypress = ''space'' then
        (case getCurrentNode ui m of
           Some currentNode \<Rightarrow>
             if Type currentNode = GroupNode then
               return_with NoCmd
                 (updateVMList ui (m\<lparr> treeManager := ToggleNode (treeManager m) currentNode \<rparr>))
             else Inr (m, NoCmd)
         | None \<Rightarrow> Inr (m, NoCmd))
      else if keypress = ''enter'' then handleEnterOnVM ui m
      else if keypress = ''/'' then
        (if \<not> filtering m then
           return_with NoCmd (updateVMList ui (m\<lparr> filtering := True, filterText := [] \<rparr>))
         else Inr (m, NoCmd))
      else if keypress = ''esc'' then Inr (goBackToProjectSelection ui m)
      else if keypress = ''q'' then Inr (m\<lparr> quitting := True \<rparr>, Quit)
      else Inr (m, NoCmd))"

text \<open>
  \<open>strings.Split(s, sep)[0]\<close>: what stands before the first occurrence of a separator
  that is not empty, and all of \<open>s\<close> when it has none.
\<close>

fun first_piece :: "string \<Rightarrow> string \<Rightarrow> string" where
  "first_piece [] sep = []"
| "first_piece (c # s) sep = (if HasPrefix (c # s) sep then [] else c # first_piece s sep)"

definition handleGlobalKeys :: "'l ui \<Rightarrow> string \<Rightarrow> 'l model \<Rightarrow> 'l model \<times> Cmd" where
  "handleGlobalKeys ui keypress m =
     (if keypress = ''ctrl+c'' then (m\<lparr> quitting := True \<rparr>, Quit)
      else if keypress = ''q'' then
        (if state m = StateSelectingProject \<or> state m = StateLoadingProjects then
           (m\<lparr> quitting := True \<rparr>, Quit)
         else (m, NoCmd))
      else if keypress = ''enter'' then
        (if state m = StateSelectingProject then
           (case list_SelectedItem ui (list m) of
              Some projectDisplay \<Rightarrow>
                (let projectID = first_piece projectDisplay '' (''
                 in (m\<lparr> selectedProject := projectID,
                          state := StateLoadingVMs,
                          list := list_SetTitle ui ''Loading VMs...'' (list m) \<rparr>,
                     LoadVMs projectID))
            | None \<Rightarrow> (m, NoCmd))
         else (m, NoCmd))
      else (m, NoCmd))"

definition handleKeyPress :: "'l ui \<Rightarrow> string \<Rightarrow> 'l model \<Rightarrow> panic + ('l model \<times> Cmd)" where
  "handleKeyPress ui keypress m =
     (if state m = StateSelectingVM \<and> filtering m then handleFilteringInput ui keypress m
      else if state m = StateSelectingVM then handleVMSelection ui keypress m
      else Inr (handleGlobalKeys ui keypress m))"

definition Init :: "'l model \<Rightarrow> Cmd" where
  "Init m =
     (if selectedProject m \<noteq> [] \<and> state m = StateLoadingVMs then LoadVMs (selectedProject m)
      else if state m = StateLoadingProjects then LoadProjects
      else NoCmd)"

text \<open>
  The value of an arithmetic result in Go's \<open>int\<close> (64 bits, two's complement): the
  result wraps around.
\<close>

definition wrap_int :: "int \<Rightarrow> int" where
  "wrap_int x = (x + 2 ^ 63) mod 2 ^ 64 - 2 ^ 63"

text \<open>
  \<open>Update\<close>. The height that is left, \<open>msg.Height - UIOverhead\<close>, is computed on Go's
  \<open>int\<close> and is then raised to \<open>MinHeight\<close> where it is below it.
\<close>

definition Update :: "'l ui \<Rightarrow> Msg \<Rightarrow> 'l model \<Rightarrow> panic + ('l model \<times> Cmd)" where
  "Update ui msg m =
     (case msg of
        WindowSizeMsg width height \<Rightarrow>
          (let availableHeight = wrap_int (height - UIOverhead);
               availableHeight =
                 (if availableHeight < MinHeight then MinHeight else availableHeight)
           in Inr (m\<lparr> list := list_SetHeight ui availableHeight
                                  (list_SetWidth ui width (list m)) \<rparr>, NoCmd))
      | KeyMsg keypress \<Rightarrow>
          if shouldHandleNavigation m keypress then
            (case list_Update ui msg (list m) of (l, cmd) \<Rightarrow> Inr (m\<lparr> list := l \<rparr>, cmd))
          else handleKeyPress ui keypress m
      | ProjectsLoadedMsg ps \<Rightarrow>
          Inr (m\<lparr> projects := ps,
                   state := StateSelectingProject,
                   list := list_SetTitle ui ''Select GCP Project''
                             (list_SetItems ui (project_items ps) (list m)) \<rparr>, NoCmd)
      | VMsLoadedMsg vms \<Rightarrow>
          return_with NoCmd
            (updateVMList ui
               (m\<lparr> state := StateSelectingVM, filtering := False, filterText := [],
                    treeManager := BuildFromVMs vms \<rparr>))
      | ErrorMsg e \<Rightarrow> Inr (m\<lparr> err := Some e \<rparr>, NoCmd)
      | OtherMsg \<Rightarrow> Inr (m, NoCmd))"

text \<open>
  \<open>View\<close>, its tests in the order of the source. The connecting screen reads
  \<open>m.selectedVM.Name\<close>, which panics when no instance is selected.
\<close>

definition View :: "'l ui \<Rightarrow> 'l model \<Rightarrow> panic + string" where
  "View ui m =
     (if quitting m then Inr (style_Render ui StyleQuitText ''Goodbye!'')
      else if state m = StateLoadingProjects then
        Inr (newline @ ''  Loading GCP projects...'' @ newline @ newline)
      else if state m = StateLoadingVMs then
        Inr (newline @ ''  Loading VMs for project: '' @ selectedProject m @ newline @ newline)
      else if state m = StateReadyToConnect then
        (case selectedVM m of
           None \<Rightarrow> Inl NilPointerDereference
         | Some vm \<Rightarrow> Inr (newline @ ''  Connecting to '' @ VM.Name vm @ ''...'' @ newline @ newline))
      else
        (case err m of
           Some e \<Rightarrow>
             Inr (newline @ ''  Error: '' @ e @ newline @ newline
                    @ ''  Press 'q' to quit.'' @ newline)
         | None \<Rightarrow>
             (let s = newline @ list_View ui (list m) in
              if state m = StateSelectingProject then
                Inr (s @ newline @ newline @ ''  Press Enter to select, 'q' to quit'')
              else if state m = StateSelectingVM then
                (if filtering m then
                   Inr (s @ newline
                          @ ''  Press Enter to connect, Backspace to edit, Esc to clear filter, 'q' to quit'')
                 else
                   Inr (s @ newline @ newline
                          @ ''  Press Enter to select/expand, '' @ [CHR 0xE2, CHR 0x86, CHR 0x92]
                          @ '' to expand, '' @ [CHR 0xE2, CHR 0x86, CHR 0x90]
                          @ '' to collapse, Space to toggle, '/' to filter, Esc to go back, 'q' to quit''))
              else Inr s)))"

section \<open>Filter over a store of nodes\<close>

text \<open>
  In the source a node list is a slice of pointers, and the children of a node are
  pointers too. Here the store is the list of the node cells allocated so far and a
  pointer is an index into it. A pointer that is not an index of the store stands for
  \<open>nil\<close>: reading through it panics. \<open>&TreeNode{...}\<close> allocates a new cell at the end
  of the store. This section writes \<open>Filter\<close> once more over such a store, from the same
  source lines, to tell what it writes and what it shares.
\<close>

type_synonym ptr = nat

datatype NodeCell = NodeCell
  (Type_c: NodeType)
  (Name_c: string)
  (VM_c: "VM option")
  (GroupName_c: string)
  (IsExpanded_c: bool)
  (Children_c: "ptr list")
  (Depth_c: int)

type_synonym store = "NodeCell list"

definition deref :: "store \<Rightarrow> ptr \<Rightarrow> panic + NodeCell" where
  "deref st p = (if p < length st then Inr (st ! p) else Inl NilPointerDereference)"

definition alloc :: "store \<Rightarrow> NodeCell \<Rightarrow> store \<times> ptr" where
  "alloc st cell = (st @ [cell], length st)"

text \<open>The loop over \<open>node.Children\<close>; it reads \<open>child.Name\<close> through the pointer.\<close>

fun matching_children_at ::
  "(string \<Rightarrow> string) \<Rightarrow> store \<Rightarrow> string \<Rightarrow> ptr list \<Rightarrow> ptr list \<Rightarrow> panic + ptr list" where
  "matching_children_at lower st filterLower [] matchingChildren = Inr matchingChildren"
| "matching_children_at lower st filterLower (child # children) matchingChildren =
     (case deref st child of
        Inl e \<Rightarrow> Inl e
      | Inr c \<Rightarrow>
          if Contains (lower (Name_c c)) filterLower then
            matching_children_at lower st filterLower children (matchingChildren @ [child])
          else matching_children_at lower st filterLower children matchingChildren)"

text \<open>
  The loop over \<open>nodes\<close>. A group that is kept gets a newly allocated cell, whose
  \<open>Children\<close> is the slice of the original (all children) or the new slice of the
  matching child pointers; an instance node that is kept is the pointer itself.
\<close>

fun filter_loop_at ::
  "(string \<Rightarrow> string) \<Rightarrow> store \<Rightarrow> string \<Rightarrow> ptr list \<Rightarrow> ptr list \<Rightarrow> panic + (store \<times> ptr list)" where
  "filter_loop_at lower st filterLower [] filtered = Inr (st, filtered)"
| "filter_loop_at lower st filterLower (node # nodes) filtered =
     (case deref st node of
        Inl e \<Rightarrow> Inl e
      | Inr n \<Rightarrow>
          if Type_c n = GroupNode then
            (if Contains (lower (Name_c n)) filterLower then
               (case alloc st (NodeCell GroupNode (Name_c n) None (GroupName_c n) True
                                 (Children_c n) (Depth_c n)) of
                  (st', filteredGroup) \<Rightarrow>
                    filter_loop_at lower st' filterLower nodes (filtered @ [filteredGroup]))
             else
               (case matching_children_at lower st filterLower (Children_c n) [] of
                  Inl e \<Rightarrow> Inl e
                | Inr matchingChildren \<Rightarrow>
                    if length matchingChildren > 0 then
                      (case alloc st (NodeCell GroupNode (Name_c n) None (GroupName_c n) True
                                        matchingChildren (Depth_c n)) of
                         (st', filteredGroup) \<Rightarrow>
                           filter_loop_at lower st' filterLower nodes (filtered @ [filteredGroup]))
                    else filter_loop_at lower st filterLower nodes filtered))
          else
            (if Contains (lower (Name_c n)) filterLower then
               filter_loop_at lower st filterLower nodes (filtered @ [node])
             else filter_loop_at lower st filterLower nodes filtered))"

text \<open>\<open>Filter\<close> over the store: the store after the call and the slice it returns.\<close>

definition Filter_at :: "(string \<Rightarrow> string) \<Rightarrow> store \<Rightarrow> ptr list \<Rightarrow> string \<Rightarrow> panic + (store \<times> ptr list)" where
  "Filter_at lower st nodes query =
     (if query = [] then Inr (st, nodes)
      else filter_loop_at lower st (lower query) nodes [])"

section \<open>Notions used to state the properties\<close>

text \<open>
  The definitions of this section are not functions of the source. They name what the
  properties below say about the source's functions.
\<close>

subsection \<open>Filtering\<close>

text \<open>
  Case-insensitive substring match of a query against a name: the test that \<open>Filter\<close>
  applies, \<open>strings.Contains(strings.ToLower(name), strings.ToLower(filterText))\<close>.
\<close>

definition name_matches :: "(string \<Rightarrow> string) \<Rightarrow> string \<Rightarrow> string \<Rightarrow> bool" where
  "name_matches lower name query = Contains (lower name) (lower query)"

text \<open>The node that \<open>Filter\<close> allocates for a group, with the children it is given.\<close>

definition derived_group :: "TreeNode \<Rightarrow> TreeNode list \<Rightarrow> TreeNode" where
  "derived_group node children =
     TreeNode GroupNode (TreeNode.Name node) None (GroupName node) True children (Depth node)"

text \<open>What one node of the input contributes to the result of \<open>Filter\<close>.\<close>

definition filter_node :: "(string \<Rightarrow> string) \<Rightarrow> string \<Rightarrow> TreeNode \<Rightarrow> TreeNode list" where
  "filter_node lower filterLower node =
     (let hit = (\<lambda>n. Contains (lower (TreeNode.Name n)) filterLower) in
      if Type node = GroupNode then
        (if hit node then [derived_group node (Children node)]
         else if filter hit (Children node) \<noteq> [] then
           [derived_group node (filter hit (Children node))]
         else [])
      else (if hit node then [node] else []))"

subsection \<open>Flattening\<close>

text \<open>The rows that follow a node's own row: its children when it is an expanded group.\<close>

definition expanded_children :: "TreeNode \<Rightarrow> TreeNode list" where
  "expanded_children node =
     (if Type node = GroupNode \<and> IsExpanded node then Children node else [])"

subsection \<open>Grouping\<close>

text \<open>The distinct non-empty group names of a list of instances, ascending.\<close>

definition group_names :: "VM list \<Rightarrow> string list" where
  "group_names vms = sorted_list_of_set (GetInstanceGroup ` set vms - {[]})"

text \<open>\<open>strings.Join\<close> for a separator of one byte, the inverse of \<open>Split\<close>.\<close>

fun Join :: "string list \<Rightarrow> char \<Rightarrow> string" where
  "Join [] sep = []"
| "Join [part] sep = part"
| "Join (part # next_part # parts) sep = part @ sep # Join (next_part # parts) sep"

text \<open>
  The path segments that come right after a segment named \<open>instanceGroupManagers\<close>,
  in the order of the path.
\<close>

definition followers :: "string list \<Rightarrow> string list" where
  "followers parts =
     map snd (filter (\<lambda>(part, next_part). part = ''instanceGroupManagers'') (zip parts (tl parts)))"

text \<open>The metadata entries of a record; none when it has no metadata at all.\<close>

definition metadata_items :: "VM \<Rightarrow> MetadataItem list" where
  "metadata_items vm =
     (case VM.Metadata vm of
        None \<Rightarrow> []
      | Some md \<Rightarrow> (case Items md of None \<Rightarrow> [] | Some items \<Rightarrow> items))"

text \<open>
  Every group name that some \<open>created-by\<close> entry of the metadata offers, in the order of
  the entries and, within an entry, of its path.
\<close>

definition group_candidates :: "MetadataItem list \<Rightarrow> string list" where
  "group_candidates items =
     concat (map (\<lambda>item. if Key item = ''created-by''
                          then followers (Split (Value item) (CHR ''/'')) else []) items)"

text \<open>
  The metadata has an entry with key \<open>created-by\<close> whose value has a path segment
  \<open>instanceGroupManagers\<close> followed by the segment \<open>g\<close>.
\<close>

definition has_group_entry :: "VM \<Rightarrow> string \<Rightarrow> bool" where
  "has_group_entry vm g \<longleftrightarrow>
     (\<exists>item \<in> set (metadata_items vm).
        Key item = ''created-by'' \<and> g \<in> set (followers (Split (Value item) (CHR ''/''))))"

text \<open>
  The instances that a node list holds under the group nodes named \<open>g\<close>, and the
  instances of its top-level instance nodes.
\<close>

definition members_of :: "TreeNode list \<Rightarrow> string \<Rightarrow> VM option list" where
  "members_of nodes g =
     concat (map (\<lambda>n. map TreeNode.VM (Children n))
                 (filter (\<lambda>n. Type n = GroupNode \<and> TreeNode.Name n = g) nodes))"

definition ungrouped_of :: "TreeNode list \<Rightarrow> VM option list" where
  "ungrouped_of nodes = map TreeNode.VM (filter (\<lambda>n. Type n = InstanceNode) nodes)"

subsection \<open>Trees that can be rendered\<close>

text \<open>
  A node that \<open>RenderNode\<close> renders without a panic, and a node list all of whose nodes
  and children are such. \<open>BuildFromVMs\<close> builds such lists only.
\<close>

definition renderable :: "TreeNode \<Rightarrow> bool" where
  "renderable n \<longleftrightarrow>
     0 \<le> Depth n \<and> 2 * Depth n \<le> 2 ^ 63 - 1 \<and> (Type n = InstanceNode \<longrightarrow> TreeNode.VM n \<noteq> None)"

definition well_formed :: "TreeNode list \<Rightarrow> bool" where
  "well_formed nodes \<longleftrightarrow>
     (\<forall>n \<in> set nodes. renderable n \<and> (\<forall>c \<in> set (Children n). renderable c))"

subsection \<open>Stores\<close>

text \<open>
  The pointers of a node list and of the children of its nodes all point into the
  store.
\<close>

definition valid_nodes :: "store \<Rightarrow> ptr list \<Rightarrow> bool" where
  "valid_nodes st nodes \<longleftrightarrow>
     (\<forall>p \<in> set nodes. p < length st \<and> (\<forall>c \<in> set (Children_c (st ! p)). c < length st))"

text \<open>
  The node value behind a pointer, read to the depth of the two-level tree: the cell
  with its children, each child taken without children of its own.
\<close>

definition leaf_of :: "store \<Rightarrow> ptr \<Rightarrow> TreeNode" where
  "leaf_of st p =
     (let c = st ! p
      in TreeNode (Type_c c) (Name_c c) (VM_c c) (GroupName_c c) (IsExpanded_c c) [] (Depth_c c))"

definition node_of :: "store \<Rightarrow> ptr \<Rightarrow> TreeNode" where
  "node_of st p =
     (let c = st ! p
      in TreeNode (Type_c c) (Name_c c) (VM_c c) (GroupName_c c) (IsExpanded_c c)
           (map (leaf_of st) (Children_c c)) (Depth_c c))"

text \<open>
  What a pointer of the result of \<open>Filter\<close> is, for the store before and after the
  call: it points into the store after; where it points to a group node, that cell was
  allocated by the call and is expanded; where it does not, it is a pointer of the
  input into the store before.
\<close>

definition result_ok :: "store \<Rightarrow> store \<Rightarrow> ptr list \<Rightarrow> ptr \<Rightarrow> bool" where
  "result_ok st st' nodes p \<longleftrightarrow>
     p < length st' \<and>
     (Type_c (st' ! p) = GroupNode \<longrightarrow> length st \<le> p \<and> IsExpanded_c (st' ! p)) \<and>
     (Type_c (st' ! p) \<noteq> GroupNode \<longrightarrow> p \<in> set nodes \<and> p < length st)"

section \<open>Example inventories\<close>

text \<open>
  Two instances of the managed group \<open>web-fleet\<close> and one instance without metadata
  entries, and an instance whose \<open>created-by\<close> path names two group managers.
\<close>

definition vm_web_1 :: VM where
  "vm_web_1 = VM.VM ''web-1'' ''zones/z1'' ''RUNNING''
     (Some (Metadata.Metadata (Some
        [MetadataItem ''created-by'' ''projects/p/zones/z1/instanceGroupManagers/web-fleet''])))"

definition vm_web_2 :: VM where
  "vm_web_2 = VM.VM ''web-2'' ''zones/z1'' ''TERMINATED''
     (Some (Metadata.Metadata (Some
        [MetadataItem ''created-by'' ''projects/p/zones/z1/instanceGroupManagers/web-fleet''])))"

definition vm_db_1 :: VM where
  "vm_db_1 = VM.VM ''db-1'' ''zones/z1'' ''RUNNING'' (Some (Metadata.Metadata (Some [])))"

definition example_vms :: "VM list" where
  "example_vms = [vm_web_1, vm_web_2, vm_db_1]"

definition vm_two_managers :: VM where
  "vm_two_managers = VM.VM ''x-1'' ''zones/z1'' ''RUNNING''
     (Some (Metadata.Metadata (Some
        [MetadataItem ''created-by''
           ''projects/p/instanceGroupManagers/alpha/instanceGroupManagers/beta''])))"

definition node_web_1 :: TreeNode where
  "node_web_1 = TreeNode InstanceNode ''web-1'' (Some vm_web_1) ''web-fleet'' False [] 1"

definition node_web_2 :: TreeNode where
  "node_web_2 = TreeNode InstanceNode ''web-2'' (Some vm_web_2) ''web-fleet'' False [] 1"

definition node_db_1 :: TreeNode where
  "node_db_1 = TreeNode InstanceNode ''db-1'' (Some vm_db_1) [] False [] 0"

definition node_web_fleet :: "bool \<Rightarrow> TreeNode" where
  "node_web_fleet expanded =
     TreeNode GroupNode ''web-fleet'' None ''web-fleet'' expanded [node_web_1, node_web_2] 0"

subsection \<open>An example controller\<close>

text \<open>
  A plain list widget, to run the controller on examples: it keeps what it is given,
  moves its index on \<open>up\<close> and \<open>down\<close>, and renders a style as the text itself.
  The names of the examples are ASCII, and the lowering function is \<open>ToLower_ascii\<close>.
\<close>

record plain_list =
  pl_items :: "string list"
  pl_index :: int
  pl_title :: string
  pl_width :: int
  pl_height :: int

definition plain_ui :: "plain_list ui" where
  "plain_ui =
     \<lparr> strings_ToLower = ToLower_ascii,
       list_New = (\<lambda>items w h.
          \<lparr> pl_items = items, pl_index = 0, pl_title = [], pl_width = w, pl_height = h \<rparr>),
       list_Index = pl_index,
       list_SelectedItem = (\<lambda>l.
          if 0 \<le> pl_index l \<and> pl_index l < int (length (pl_items l))
          then Some (pl_items l ! nat (pl_index l)) else None),
       list_SetItems = (\<lambda>items l. l\<lparr> pl_items := items \<rparr>),
       list_SetTitle = (\<lambda>title l. l\<lparr> pl_title := title \<rparr>),
       list_SetWidth = (\<lambda>w l. l\<lparr> pl_width := w \<rparr>),
       list_SetHeight = (\<lambda>h l. l\<lparr> pl_height := h \<rparr>),
       list_Update = (\<lambda>msg l.
          (if msg = KeyMsg ''down'' then l\<lparr> pl_index := pl_index l + 1 \<rparr>
           else if msg = KeyMsg ''up'' then l\<lparr> pl_index := pl_index l - 1 \<rparr>
           else l, NoCmd)),
       list_View = pl_title,
       style_Render = (\<lambda>style text. text) \<rparr>"

text \<open>
  The controller while it selects an instance of the example inventory with the filter
  \<open>web\<close> typed in, the first row (the group) current.
\<close>

definition model_filtering :: "plain_list model" where
  "model_filtering =
     \<lparr> state = StateSelectingVM, quitting = False,
       treeManager = [node_web_fleet False, node_db_1],
       projects = [], selectedProject = ''p'', selectedVM = None, err = None,
       list = \<lparr> pl_items = [], pl_index = 0, pl_title = [], pl_width = 20, pl_height = 14 \<rparr>,
       currentlyDisplayedNodes = [node_web_fleet True, node_web_1, node_web_2],
       filtering = True, filterText = ''web'' \<rparr>"

subsection \<open>An example store\<close>

text \<open>The example tree in a store: cells 0 and 1 are the children of the group in cell 2.\<close>

text \<open>The same controller with the second row, the instance \<open>web-1\<close>, current.\<close>

definition model_filtering_on_instance :: "plain_list model" where
  "model_filtering_on_instance =
     model_filtering\<lparr> list :=
       \<lparr> pl_items = [], pl_index = 1, pl_title = [], pl_width = 20, pl_height = 14 \<rparr> \<rparr>"

definition example_store :: store where
  "example_store =
     [NodeCell InstanceNode ''web-1'' (Some vm_web_1) ''web-fleet'' False [] 1,
      NodeCell InstanceNode ''web-2'' (Some vm_web_2) ''web-fleet'' False [] 1,
      NodeCell GroupNode ''web-fleet'' None ''web-fleet'' False [0, 1] 0,
      NodeCell InstanceNode ''db-1'' (Some vm_db_1) [] False [] 0]"

section \<open>Properties\<close>

subsection \<open>Status badge\<close>

lemmas Status_defs =
  StatusRunning_def StatusTerminated_def StatusProvisioning_def StatusStopping_def

text \<open>
  C7. The status badge is a total function: the four known statuses map to the letters
  \<open>R\<close>, \<open>T\<close>, \<open>P\<close> and \<open>S\<close>, which are four different strings of one letter, and
  every other status string maps to \<open>?\<close>.
\<close>

theorem GetAbbreviation_total:
  "GetAbbreviation StatusRunning = ''R'' \<and>
   GetAbbreviation StatusTerminated = ''T'' \<and>
   GetAbbreviation StatusProvisioning = ''P'' \<and>
   GetAbbreviation StatusStopping = ''S'' \<and>
   distinct (map GetAbbreviation
     [StatusRunning, StatusTerminated, StatusProvisioning, StatusStopping]) \<and>
   length (GetAbbreviation s) = 1 \<and>
   (s \<notin> {StatusRunning, StatusTerminated, StatusProvisioning, StatusStopping}
      \<longrightarrow> GetAbbreviation s = ''?'')"
  by (simp add: GetAbbreviation_def Status_defs)

theorem GetAbbreviation_total_witness:
  "''SUSPENDED'' \<notin> {StatusRunning, StatusTerminated, StatusProvisioning, StatusStopping} \<and>
   GetAbbreviation ''SUSPENDED'' = ''?'' \<and>
   GetAbbreviation ''RUNNING'' = ''R''"
  using GetAbbreviation_total [of "''SUSPENDED''"]
  by (simp add: Status_defs)

subsection \<open>Strings\<close>

lemma HasPrefix_iff: "HasPrefix s p \<longleftrightarrow> (\<exists>post. s = p @ post)"
  by (induction s p rule: HasPrefix.induct) auto

lemma Contains_iff: "Contains s sub \<longleftrightarrow> (\<exists>pre post. s = pre @ sub @ post)"
proof (induction s)
  case Nil
  then show ?case by auto
next
  case (Cons c s)
  show ?case
  proof
    assume "Contains (c # s) sub"
    then consider "HasPrefix (c # s) sub" | "Contains s sub" by auto
    then show "\<exists>pre post. c # s = pre @ sub @ post"
    proof cases
      case 1
      then obtain post where "c # s = sub @ post" by (auto simp: HasPrefix_iff)
      then have "c # s = [] @ sub @ post" by simp
      then show ?thesis by blast
    next
      case 2
      then obtain pre post where "s = pre @ sub @ post" using Cons.IH by auto
      then have "c # s = (c # pre) @ sub @ post" by simp
      then show ?thesis by blast
    qed
  next
    assume "\<exists>pre post. c # s = pre @ sub @ post"
    then obtain pre post where eq: "c # s = pre @ sub @ post" by auto
    show "Contains (c # s) sub"
    proof (cases pre)
      case Nil
      then have "HasPrefix (c # s) sub" using eq by (auto simp: HasPrefix_iff)
      then show ?thesis by simp
    next
      case (Cons a pre')
      then have "s = pre' @ sub @ post" using eq by simp
      then have "Contains s sub" using Cons.IH by blast
      then show ?thesis by simp
    qed
  qed
qed

lemma toLowerByte_idem: "toLowerByte (toLowerByte c) = toLowerByte c"
proof (cases "CHR ''A'' \<le> c \<and> c \<le> CHR ''Z''")
  case True
  then have "65 \<le> (of_char c :: nat)" "(of_char c :: nat) \<le> 90"
    by (simp_all add: less_eq_char_def)
  then have "\<not> (of_char (char_of (of_char c + (32::nat))) :: nat) \<le> 90"
    by simp
  then have "\<not> char_of (of_char c + (32::nat)) \<le> CHR ''Z''"
    by (simp add: less_eq_char_def)
  then show ?thesis by (simp add: toLowerByte_def)
next
  case False
  then have "toLowerByte c = c" unfolding toLowerByte_def by (rule if_not_P)
  then show ?thesis by simp
qed

lemma ToLower_ascii_idem: "ToLower_ascii (ToLower_ascii s) = ToLower_ascii s"
  by (simp add: ToLower_ascii_def toLowerByte_idem)

lemma toLowerByte_ascii: "c < CHR 0x80 \<Longrightarrow> toLowerByte c < CHR 0x80"
proof (cases "CHR ''A'' \<le> c \<and> c \<le> CHR ''Z''")
  case True
  then have "(of_char c :: nat) \<le> 90"
    by (simp add: less_eq_char_def)
  then have "(of_char (char_of (of_char c + (32::nat))) :: nat) < 128"
    by simp
  then have "char_of (of_char c + (32::nat)) < CHR 0x80"
    by (simp add: less_char_def)
  then show ?thesis using True by (simp add: toLowerByte_def)
next
  case False
  then have "toLowerByte c = c" unfolding toLowerByte_def by (rule if_not_P)
  then show "c < CHR 0x80 \<Longrightarrow> toLowerByte c < CHR 0x80" by simp
qed

lemma is_ascii_ToLower_ascii: "is_ascii s \<Longrightarrow> is_ascii (ToLower_ascii s)"
  by (simp add: is_ascii_def ToLower_ascii_def toLowerByte_ascii)

lemma lowers_ascii_ToLower_ascii: "lowers_ascii ToLower_ascii"
  by (simp add: lowers_ascii_def)

lemma Split_not_Nil: "Split s c \<noteq> []"
  by (induction s) (auto split: list.splits)

lemma Join_Split: "Join (Split s c) c = s"
proof (induction s)
  case Nil
  then show ?case by simp
next
  case (Cons a s)
  obtain p ps where ps: "Split s c = p # ps"
    using Split_not_Nil [of s c] by (cases "Split s c") auto
  with Cons show ?case by (cases ps) auto
qed

lemma Join_mid:
  "\<exists>x y. Join (pre @ a # b # post) c = x @ a @ c # y"
proof (induction pre)
  case Nil
  have "Join (a # b # post) c = [] @ a @ c # Join (b # post) c" by simp
  then show ?case by (metis append_Nil)
next
  case (Cons p pre)
  then obtain x y where xy: "Join (pre @ a # b # post) c = x @ a @ c # y" by blast
  obtain q qs where q: "pre @ a # b # post = q # qs" by (cases pre) auto
  have "Join (p # q # qs) c = (p @ c # x) @ a @ c # y"
    using xy q by simp
  then show ?case using q by (metis append_Cons)
qed

subsection \<open>The loops as list functions\<close>

lemma flatten_loop_eq:
  "flatten_loop nodes result = result @ concat (map (\<lambda>n. n # expanded_children n) nodes)"
  by (induction nodes arbitrary: result) (auto simp: expanded_children_def Let_def)

lemma FlattenForDisplay_eq:
  "FlattenForDisplay nodes = concat (map (\<lambda>n. n # expanded_children n) nodes)"
  by (simp add: FlattenForDisplay_def flatten_loop_eq)

lemma matching_children_eq:
  "matching_children lower fl children acc =
     acc @ filter (\<lambda>n. Contains (lower (TreeNode.Name n)) fl) children"
  by (induction children arbitrary: acc) auto

lemma filter_loop_eq:
  "filter_loop lower fl nodes filtered = filtered @ concat (map (filter_node lower fl) nodes)"
  by (induction nodes arbitrary: filtered)
     (auto simp: filter_node_def derived_group_def matching_children_eq Let_def)

lemma Filter_eq:
  "Filter lower nodes q = (if q = [] then nodes else concat (map (filter_node lower (lower q)) nodes))"
  by (simp add: Filter_def filter_loop_eq)

lemma filter_node_idem:
  "concat (map (filter_node lower fl) (filter_node lower fl n)) = filter_node lower fl n"
  by (auto simp: filter_node_def derived_group_def Let_def)

lemma concat_filter_node_idem:
  "concat (map (filter_node lower fl) (concat (map (filter_node lower fl) nodes))) =
   concat (map (filter_node lower fl) nodes)"
  by (induction nodes) (auto simp: filter_node_idem)

subsection \<open>GetInstanceGroup\<close>

lemma followers_simps:
  "followers [] = []"
  "followers [part] = []"
  "followers (part # next_part # parts) =
     (if part = ''instanceGroupManagers'' then [next_part] else []) @ followers (next_part # parts)"
  by (simp_all add: followers_def)

lemma scan_parts_followers:
  "scan_parts parts = (case followers parts of [] \<Rightarrow> None | g # _ \<Rightarrow> Some g)"
  by (induction parts rule: scan_parts.induct) (auto simp: followers_simps)

lemma followers_mid:
  "g \<in> set (followers parts) \<Longrightarrow> \<exists>pre post. parts = pre @ ''instanceGroupManagers'' # g # post"
proof (induction parts rule: induct_list012)
  case (3 part next_part parts)
  show ?case
  proof (cases "part = ''instanceGroupManagers'' \<and> g = next_part")
    case True
    then have "part # next_part # parts = [] @ ''instanceGroupManagers'' # g # parts" by simp
    then show ?thesis by blast
  next
    case False
    then have "g \<in> set (followers (next_part # parts))"
      using 3(3) by (auto simp: followers_simps split: if_splits)
    then obtain pre post where "next_part # parts = pre @ ''instanceGroupManagers'' # g # post"
      using 3(2) by blast
    then have "part # next_part # parts = (part # pre) @ ''instanceGroupManagers'' # g # post"
      by simp
    then show ?thesis by blast
  qed
qed (auto simp: followers_simps)

lemma followers_Contains:
  assumes "followers (Split v c) \<noteq> []"
  shows "Contains v (''instanceGroupManagers'' @ [c])"
proof -
  from assms obtain g where "g \<in> set (followers (Split v c))"
    by (cases "followers (Split v c)") auto
  then obtain pre post where "Split v c = pre @ ''instanceGroupManagers'' # g # post"
    using followers_mid by blast
  then obtain x y where "Join (Split v c) c = x @ ''instanceGroupManagers'' @ c # y"
    using Join_mid [of pre "''instanceGroupManagers''" g post c] by auto
  then have "v = x @ (''instanceGroupManagers'' @ [c]) @ y"
    by (simp add: Join_Split)
  then show ?thesis unfolding Contains_iff by blast
qed

lemma scan_items_candidates:
  "scan_items items = (case group_candidates items of [] \<Rightarrow> [] | g # _ \<Rightarrow> g)"
proof (induction items)
  case Nil
  then show ?case by (simp add: group_candidates_def)
next
  case (Cons item items)
  let ?f = "followers (Split (Value item) (CHR ''/''))"
  show ?case
  proof (cases "Key item = ''created-by''")
    case False
    then show ?thesis using Cons by (simp add: group_candidates_def)
  next
    case True
    show ?thesis
    proof (cases ?f)
      case Nil
      then show ?thesis using Cons True
        by (simp add: group_candidates_def scan_parts_followers)
    next
      case (Cons g gs)
      then have "Contains (Value item) ''instanceGroupManagers/''"
        using followers_Contains [of "Value item" "CHR ''/''"] by simp
      then show ?thesis using Cons True
        by (simp add: group_candidates_def scan_parts_followers)
    qed
  qed
qed

lemma GetInstanceGroup_candidates:
  "GetInstanceGroup vm =
     (case group_candidates (metadata_items vm) of [] \<Rightarrow> [] | g # _ \<Rightarrow> g)"
  by (simp add: GetInstanceGroup_def metadata_items_def scan_items_candidates group_candidates_def
           split: option.splits)

lemma has_group_entry_candidates:
  "has_group_entry vm g \<longleftrightarrow> g \<in> set (group_candidates (metadata_items vm))"
  by (auto simp: has_group_entry_def group_candidates_def split: if_splits)

subsection \<open>BuildFromVMs\<close>

lemma groups_get_set:
  "groups_get (groups_set groups k v) k' = (if k' = k then v else groups_get groups k')"
  by (induction groups k v rule: groups_set.induct) (auto simp: groups_get_def)

lemma keys_groups_set:
  "fst ` set (groups_set groups k v) = insert k (fst ` set groups)"
  by (induction groups k v rule: groups_set.induct) auto

lemma distinct_groups_set:
  "distinct (map fst groups) \<Longrightarrow> distinct (map fst (groups_set groups k v))"
  by (induction groups k v rule: groups_set.induct) (auto simp: keys_groups_set)

lemma partition_vms_ungrouped:
  "snd (partition_vms vms groups ungrouped) =
     ungrouped @ filter (\<lambda>vm. GetInstanceGroup vm = []) vms"
  by (induction vms arbitrary: groups ungrouped) (auto simp: Let_def)

lemma partition_vms_get:
  "k \<noteq> [] \<Longrightarrow>
   groups_get (fst (partition_vms vms groups ungrouped)) k =
     groups_get groups k @ filter (\<lambda>vm. GetInstanceGroup vm = k) vms"
  by (induction vms arbitrary: groups ungrouped) (auto simp: Let_def groups_get_set)

lemma partition_vms_keys:
  "fst ` set (fst (partition_vms vms groups ungrouped)) =
     fst ` set groups \<union> (GetInstanceGroup ` set vms - {[]})"
  by (induction vms arbitrary: groups ungrouped) (auto simp: Let_def keys_groups_set)

lemma partition_vms_distinct:
  "distinct (map fst groups) \<Longrightarrow>
   distinct (map fst (fst (partition_vms vms groups ungrouped)))"
  by (induction vms arbitrary: groups ungrouped) (auto simp: Let_def distinct_groups_set)

lemma add_children_eq:
  "add_children g vms children =
     children @ map (\<lambda>vm. TreeNode InstanceNode (VM.Name vm) (Some vm) g False [] 1) vms"
  by (induction vms arbitrary: children) auto

lemma add_group_nodes_eq:
  "add_group_nodes groups names nodes =
     nodes @ map (\<lambda>g. TreeNode GroupNode g None g False
                        (add_children g (groups_get groups g) []) 0) names"
  by (induction names arbitrary: nodes) auto

lemma add_ungrouped_eq:
  "add_ungrouped vms nodes =
     nodes @ map (\<lambda>vm. TreeNode InstanceNode (VM.Name vm) (Some vm) [] False [] 0) vms"
  by (induction vms arbitrary: nodes) auto

lemma sort_distinct:
  fixes ks :: "string list"
  shows "distinct ks \<Longrightarrow> sort ks = sorted_list_of_set (set ks)"
  by (simp add: sorted_list_of_set_sort_remdups distinct_remdups_id)

lemma sort_Strings_order:
  fixes ks ks' :: "string list"
  assumes "distinct ks" "distinct ks'" "set ks = set ks'"
  shows "sort ks = sort ks'"
  using assms by (simp add: sort_distinct)

lemma sorted_keys_group_names:
  "sort (map fst (fst (partition_vms vms [] []))) = group_names vms"
proof -
  let ?ks = "map fst (fst (partition_vms vms [] []))"
  have d: "distinct ?ks" by (rule partition_vms_distinct) simp
  have s: "set ?ks = GetInstanceGroup ` set vms - {[]}"
    using partition_vms_keys [of vms "[]" "[]"] by simp
  have "sort ?ks = sorted_list_of_set (set ?ks)"
    using d by (rule sort_distinct)
  then show ?thesis using s by (simp add: group_names_def)
qed

lemma group_names_props:
  "sorted (group_names vms)" "distinct (group_names vms)"
  "set (group_names vms) = GetInstanceGroup ` set vms - {[]}"
  by (simp_all add: group_names_def)

lemma BuildFromVMs_eq:
  "BuildFromVMs vms =
     map (\<lambda>g. TreeNode GroupNode g None g False
                (map (\<lambda>vm. TreeNode InstanceNode (VM.Name vm) (Some vm) g False [] 1)
                     (filter (\<lambda>vm. GetInstanceGroup vm = g) vms)) 0)
         (group_names vms)
     @ map (\<lambda>vm. TreeNode InstanceNode (VM.Name vm) (Some vm) [] False [] 0)
           (filter (\<lambda>vm. GetInstanceGroup vm = []) vms)"
proof -
  obtain groups ungrouped where p: "partition_vms vms [] [] = (groups, ungrouped)"
    by (cases "partition_vms vms [] []")
  have u: "ungrouped = filter (\<lambda>vm. GetInstanceGroup vm = []) vms"
    using partition_vms_ungrouped [of vms "[]" "[]"] p by simp
  have n: "sort (map fst groups) = group_names vms"
    using sorted_keys_group_names [of vms] p by simp
  have g: "groups_get groups k = filter (\<lambda>vm. GetInstanceGroup vm = k) vms"
    if "k \<in> set (group_names vms)" for k
  proof -
    from that have "k \<noteq> []" by (simp add: group_names_props)
    then show ?thesis
      using partition_vms_get [of k vms "[]" "[]"] p by (simp add: groups_get_def)
  qed
  show ?thesis
    by (simp add: BuildFromVMs_def p Let_def n add_group_nodes_eq add_ungrouped_eq
             add_children_eq u g cong: map_cong)
qed

subsection \<open>Helper facts\<close>

lemma Filter_single: "Filter lower [n] q = (if q = [] then [n] else filter_node lower (lower q) n)"
  by (simp add: Filter_eq)

lemma filter_eq_distinct:
  "distinct xs \<Longrightarrow> filter (\<lambda>k. k = g) xs = (if g \<in> set xs then [g] else [])"
  by (induction xs) auto

lemma members_of_BuildFromVMs:
  "members_of (BuildFromVMs vms) g =
     (if g = [] then [] else map Some (filter (\<lambda>vm. GetInstanceGroup vm = g) vms))"
proof -
  have d: "distinct (group_names vms)" by (rule group_names_props)
  have s: "g \<in> set (group_names vms) \<longleftrightarrow> g \<noteq> [] \<and> g \<in> GetInstanceGroup ` set vms"
    by (auto simp: group_names_props)
  have n: "filter (\<lambda>vm. GetInstanceGroup vm = g) vms = []" if "g \<notin> GetInstanceGroup ` set vms"
    using that by (auto simp: filter_empty_conv)
  show ?thesis
    using s n
    by (simp add: members_of_def BuildFromVMs_eq filter_map comp_def filter_eq_distinct [OF d])
qed

lemma ungrouped_of_BuildFromVMs:
  "ungrouped_of (BuildFromVMs vms) = map Some (filter (\<lambda>vm. GetInstanceGroup vm = []) vms)"
  by (simp add: ungrouped_of_def BuildFromVMs_eq filter_map comp_def)

lemma group_node_names_BuildFromVMs:
  "map TreeNode.Name (filter (\<lambda>n. Type n = GroupNode) (BuildFromVMs vms)) = group_names vms"
  by (simp add: BuildFromVMs_eq filter_map comp_def)

subsection \<open>Flattening\<close>

text \<open>
  C3. \<open>FlattenForDisplay\<close> emits the top-level nodes in order, and right after the row
  of a node the children of that node exactly when it is a group whose \<open>IsExpanded\<close>
  is true: the rows of a list \<open>pre @ node # post\<close> are the rows of \<open>pre\<close>, then
  \<open>node\<close>, then its children if it is an expanded group and nothing otherwise, then the
  rows of \<open>post\<close>. So a block of child rows stands only right behind the row of its
  own expanded group; where no group is expanded the rows are the top-level nodes
  alone; and every row is a top-level node or a child of an expanded group.
\<close>

theorem FlattenForDisplay_rows:
  "FlattenForDisplay [] = [] \<and>
   FlattenForDisplay (pre @ node # post) =
     FlattenForDisplay pre
       @ node # (if Type node = GroupNode \<and> IsExpanded node then Children node else [])
       @ FlattenForDisplay post \<and>
   ((\<forall>n \<in> set nodes. Type n = GroupNode \<longrightarrow> \<not> IsExpanded n)
      \<longrightarrow> FlattenForDisplay nodes = nodes) \<and>
   set (FlattenForDisplay nodes) =
     set nodes \<union>
       (\<Union>g \<in> {g \<in> set nodes. Type g = GroupNode \<and> IsExpanded g}. set (Children g))"
proof -
  have a: "FlattenForDisplay [] = []"
    by (simp add: FlattenForDisplay_eq)
  have b: "FlattenForDisplay (pre @ node # post) =
     FlattenForDisplay pre
       @ node # (if Type node = GroupNode \<and> IsExpanded node then Children node else [])
       @ FlattenForDisplay post"
    by (simp add: FlattenForDisplay_eq expanded_children_def)
  have c: "FlattenForDisplay nodes = nodes"
    if "\<forall>n \<in> set nodes. Type n = GroupNode \<longrightarrow> \<not> IsExpanded n"
    using that by (induction nodes) (auto simp: FlattenForDisplay_eq expanded_children_def)
  have d: "set (FlattenForDisplay nodes) =
     set nodes \<union>
       (\<Union>g \<in> {g \<in> set nodes. Type g = GroupNode \<and> IsExpanded g}. set (Children g))"
    by (induction nodes) (auto simp: FlattenForDisplay_eq expanded_children_def)
  from a b c d show ?thesis by blast
qed

theorem FlattenForDisplay_rows_witness:
  "FlattenForDisplay [node_web_fleet True, node_db_1] =
     [node_web_fleet True, node_web_1, node_web_2, node_db_1] \<and>
   FlattenForDisplay [node_web_fleet False, node_db_1] = [node_web_fleet False, node_db_1]"
proof -
  have "FlattenForDisplay ([] @ node_web_fleet True # [node_db_1]) =
      FlattenForDisplay [] @ node_web_fleet True # [node_web_1, node_web_2]
        @ FlattenForDisplay [node_db_1]"
    using FlattenForDisplay_rows [of "[]" "node_web_fleet True" "[node_db_1]" "[]"]
    by (simp add: node_web_fleet_def)
  moreover have "FlattenForDisplay [node_db_1] = [node_db_1]"
    using FlattenForDisplay_rows [of "[]" "node_db_1" "[]" "[node_db_1]"]
    by (simp add: node_db_1_def)
  moreover have "FlattenForDisplay [node_web_fleet False, node_db_1] =
      [node_web_fleet False, node_db_1]"
    using FlattenForDisplay_rows [of "[]" "node_db_1" "[]" "[node_web_fleet False, node_db_1]"]
    by (simp add: node_web_fleet_def node_db_1_def)
  moreover have "FlattenForDisplay [] = []"
    using FlattenForDisplay_rows [of "[]" "node_db_1" "[]" "[]"] by simp
  ultimately show ?thesis by simp
qed

subsection \<open>Filtering\<close>

text \<open>
  C1. \<open>Filter\<close> with the empty query returns its input. With a query that is not
  empty: every group node of the result list is expanded; the result for a list is
  the concatenation, in input order, of the results for its nodes; a group whose name
  matches gives one group node with all of its children; a group whose name does not
  match and that has a child whose name matches gives one group node with exactly the
  matching children, in their order; a group without any match gives nothing; an
  instance node gives itself when its name matches and nothing otherwise. A name
  matches when the lowered query occurs in the lowered name, whatever the lowering
  function is; no field but \<open>Name\<close> is looked at. For a lowering function that lowers
  ASCII strings as Go's does, and a name and a query of ASCII bytes, the match is the
  occurrence of the query in the name with \<open>'A'..'Z'\<close> read as \<open>'a'..'z'\<close> in both,
  and it is the same for the name or the query in lower case: it ignores case.
\<close>

theorem Filter_correct:
  "Filter lower nodes [] = nodes \<and>
   (q \<noteq> [] \<longrightarrow>
      (\<forall>g \<in> set (Filter lower nodes q). Type g = GroupNode \<longrightarrow> IsExpanded g) \<and>
      Filter lower (pre @ n # post) q = Filter lower pre q @ Filter lower [n] q @ Filter lower post q \<and>
      (Type n = GroupNode \<and> name_matches lower (TreeNode.Name n) q \<longrightarrow>
         Filter lower [n] q =
           [TreeNode GroupNode (TreeNode.Name n) None (GroupName n) True (Children n) (Depth n)]) \<and>
      (Type n = GroupNode \<and> \<not> name_matches lower (TreeNode.Name n) q \<and>
       (\<exists>c \<in> set (Children n). name_matches lower (TreeNode.Name c) q) \<longrightarrow>
         Filter lower [n] q =
           [TreeNode GroupNode (TreeNode.Name n) None (GroupName n) True
              (filter (\<lambda>c. name_matches lower (TreeNode.Name c) q) (Children n)) (Depth n)]) \<and>
      (Type n = GroupNode \<and> \<not> name_matches lower (TreeNode.Name n) q \<and>
       (\<forall>c \<in> set (Children n). \<not> name_matches lower (TreeNode.Name c) q) \<longrightarrow>
         Filter lower [n] q = []) \<and>
      (Type n = InstanceNode \<longrightarrow>
         Filter lower [n] q = (if name_matches lower (TreeNode.Name n) q then [n] else []))) \<and>
   (name_matches lower name q \<longleftrightarrow> (\<exists>before after. lower name = before @ lower q @ after)) \<and>
   (lowers_ascii lower \<and> is_ascii name \<and> is_ascii q \<longrightarrow>
      name_matches lower name q = Contains (ToLower_ascii name) (ToLower_ascii q) \<and>
      name_matches lower (ToLower_ascii name) q = name_matches lower name q \<and>
      name_matches lower name (ToLower_ascii q) = name_matches lower name q)"
proof -
  have e: "Filter lower nodes [] = nodes"
    by (simp add: Filter_def)
  have m: "name_matches lower name q \<longleftrightarrow> (\<exists>before after. lower name = before @ lower q @ after)"
    by (simp add: name_matches_def Contains_iff)
  have ci: "name_matches lower name q = Contains (ToLower_ascii name) (ToLower_ascii q) \<and>
      name_matches lower (ToLower_ascii name) q = name_matches lower name q \<and>
      name_matches lower name (ToLower_ascii q) = name_matches lower name q"
    if "lowers_ascii lower" "is_ascii name" "is_ascii q"
    using that
    by (simp add: name_matches_def lowers_ascii_def is_ascii_ToLower_ascii ToLower_ascii_idem)
  have x: "\<forall>g \<in> set (Filter lower nodes q). Type g = GroupNode \<longrightarrow> IsExpanded g" if "q \<noteq> []"
    using that by (auto simp: Filter_eq filter_node_def derived_group_def Let_def split: if_splits)
  have o: "Filter lower (pre @ n # post) q = Filter lower pre q @ Filter lower [n] q @ Filter lower post q"
    by (simp add: Filter_eq)
  have g1: "Filter lower [n] q =
      [TreeNode GroupNode (TreeNode.Name n) None (GroupName n) True (Children n) (Depth n)]"
    if "q \<noteq> []" "Type n = GroupNode" "name_matches lower (TreeNode.Name n) q"
    using that by (simp add: Filter_single filter_node_def derived_group_def name_matches_def)
  have g2: "Filter lower [n] q =
      [TreeNode GroupNode (TreeNode.Name n) None (GroupName n) True
         (filter (\<lambda>c. name_matches lower (TreeNode.Name c) q) (Children n)) (Depth n)]"
    if "q \<noteq> []" "Type n = GroupNode" "\<not> name_matches lower (TreeNode.Name n) q"
      "\<exists>c \<in> set (Children n). name_matches lower (TreeNode.Name c) q"
    using that
    by (auto simp: Filter_single filter_node_def derived_group_def name_matches_def
          filter_empty_conv)
  have g3: "Filter lower [n] q = []"
    if "q \<noteq> []" "Type n = GroupNode" "\<not> name_matches lower (TreeNode.Name n) q"
      "\<forall>c \<in> set (Children n). \<not> name_matches lower (TreeNode.Name c) q"
    using that
    by (auto simp: Filter_single filter_node_def derived_group_def name_matches_def
          filter_empty_conv)
  have i: "Filter lower [n] q = (if name_matches lower (TreeNode.Name n) q then [n] else [])"
    if "q \<noteq> []" "Type n = InstanceNode"
    using that by (simp add: Filter_single filter_node_def name_matches_def)
  from e m ci x o g1 g2 g3 i show ?thesis by blast
qed

theorem Filter_correct_witness:
  "''WEB'' \<noteq> [] \<and>
   Filter ToLower_ascii [node_web_fleet False, node_db_1] ''WEB'' = [node_web_fleet True] \<and>
   Filter ToLower_ascii [node_web_fleet False, node_db_1] ''B-2'' =
     [TreeNode GroupNode ''web-fleet'' None ''web-fleet'' True [node_web_2] 0] \<and>
   Filter ToLower_ascii [node_web_fleet False, node_db_1] ''Db'' = [node_db_1] \<and>
   lowers_ascii ToLower_ascii \<and> is_ascii ''Web-Fleet'' \<and> is_ascii ''WEB'' \<and>
   name_matches ToLower_ascii ''Web-Fleet'' ''WEB''"
proof -
  have la: "lowers_ascii ToLower_ascii" "is_ascii ''Web-Fleet''" "is_ascii ''WEB''"
    by (simp_all add: lowers_ascii_ToLower_ascii is_ascii_def)
  have "Contains (ToLower_ascii ''Web-Fleet'') (ToLower_ascii ''WEB'')"
    by code_simp
  moreover have "name_matches ToLower_ascii ''Web-Fleet'' ''WEB'' =
      Contains (ToLower_ascii ''Web-Fleet'') (ToLower_ascii ''WEB'')"
    using Filter_correct [where lower = ToLower_ascii and name = "''Web-Fleet''" and q = "''WEB''",
        THEN conjunct2, THEN conjunct2, THEN conjunct2] la
    by blast
  ultimately have nm: "name_matches ToLower_ascii ''Web-Fleet'' ''WEB''"
    by simp
  have m1: "name_matches ToLower_ascii ''web-fleet'' ''WEB''" "\<not> name_matches ToLower_ascii ''db-1'' ''WEB''"
    by code_simp+
  have m2: "\<not> name_matches ToLower_ascii ''web-fleet'' ''B-2''" "\<not> name_matches ToLower_ascii ''web-1'' ''B-2''"
    "name_matches ToLower_ascii ''web-2'' ''B-2''" "\<not> name_matches ToLower_ascii ''db-1'' ''B-2''"
    by code_simp+
  have m3: "\<not> name_matches ToLower_ascii ''web-fleet'' ''Db''" "\<not> name_matches ToLower_ascii ''web-1'' ''Db''"
    "\<not> name_matches ToLower_ascii ''web-2'' ''Db''" "name_matches ToLower_ascii ''db-1'' ''Db''"
    by code_simp+
  have e: "Filter ToLower_ascii [] q = []" for q
    using Filter_correct [where lower = ToLower_ascii and nodes = "[]" and q = "[]"] by (cases q) (simp_all add: Filter_def)
  have "Filter ToLower_ascii [node_web_fleet False, node_db_1] ''WEB'' = [node_web_fleet True]"
    using Filter_correct [where lower = ToLower_ascii and q = "''WEB''" and pre = "[]" and n = "node_web_fleet False"
        and post = "[node_db_1]"]
      Filter_correct [where lower = ToLower_ascii and q = "''WEB''" and n = "node_db_1"] m1 e
    by (simp add: node_web_fleet_def node_db_1_def)
  moreover have "Filter ToLower_ascii [node_web_fleet False, node_db_1] ''B-2'' =
     [TreeNode GroupNode ''web-fleet'' None ''web-fleet'' True [node_web_2] 0]"
    using Filter_correct [where lower = ToLower_ascii and q = "''B-2''" and pre = "[]" and n = "node_web_fleet False"
        and post = "[node_db_1]"]
      Filter_correct [where lower = ToLower_ascii and q = "''B-2''" and n = "node_db_1"] m2 e
    by (simp add: node_web_fleet_def node_db_1_def node_web_1_def node_web_2_def)
  moreover have "Filter ToLower_ascii [node_web_fleet False, node_db_1] ''Db'' = [node_db_1]"
    using Filter_correct [where lower = ToLower_ascii and q = "''Db''" and pre = "[]" and n = "node_web_fleet False"
        and post = "[node_db_1]"]
      Filter_correct [where lower = ToLower_ascii and q = "''Db''" and n = "node_db_1"] m3 e
    by (simp add: node_web_fleet_def node_db_1_def node_web_1_def node_web_2_def)
  ultimately show ?thesis using la nm by simp
qed

text \<open>
  C6. Filtering is idempotent: filtering the result of \<open>Filter\<close> again with the same
  query gives that result again, as a list of node values.
\<close>

theorem Filter_idempotent: "Filter lower (Filter lower nodes q) q = Filter lower nodes q"
  by (simp add: Filter_eq concat_filter_node_idem)

theorem Filter_idempotent_witness:
  "Filter ToLower_ascii [node_web_fleet False, node_db_1] ''eb-2'' =
     [TreeNode GroupNode ''web-fleet'' None ''web-fleet'' True [node_web_2] 0] \<and>
   Filter ToLower_ascii [TreeNode GroupNode ''web-fleet'' None ''web-fleet'' True [node_web_2] 0] ''eb-2'' =
     [TreeNode GroupNode ''web-fleet'' None ''web-fleet'' True [node_web_2] 0]"
proof -
  have a: "Filter ToLower_ascii [node_web_fleet False, node_db_1] ''eb-2'' =
     [TreeNode GroupNode ''web-fleet'' None ''web-fleet'' True [node_web_2] 0]"
    by code_simp
  show ?thesis
    using Filter_idempotent [of ToLower_ascii "[node_web_fleet False, node_db_1]" "''eb-2''"] a by simp
qed

subsection \<open>Building the tree\<close>

text \<open>
  C5. \<open>BuildFromVMs\<close> produces one group node per distinct non-empty group name, the
  names strictly ascending, each with one instance node (depth 1) per instance of that
  group in source order, and after all group nodes one instance node (depth 0) per
  ungrouped instance in source order. The group names of the result depend only on
  the set of the instances, not on their order.
\<close>

theorem BuildFromVMs_structure:
  "BuildFromVMs vms =
     map (\<lambda>g. TreeNode GroupNode g None g False
                (map (\<lambda>vm. TreeNode InstanceNode (VM.Name vm) (Some vm) g False [] 1)
                     (filter (\<lambda>vm. GetInstanceGroup vm = g) vms)) 0)
         (group_names vms)
     @ map (\<lambda>vm. TreeNode InstanceNode (VM.Name vm) (Some vm) [] False [] 0)
           (filter (\<lambda>vm. GetInstanceGroup vm = []) vms) \<and>
   sorted_wrt (<) (group_names vms) \<and>
   set (group_names vms) = GetInstanceGroup ` set vms - {[]} \<and>
   map TreeNode.Name (filter (\<lambda>n. Type n = GroupNode) (BuildFromVMs vms)) = group_names vms \<and>
   (set vms' = set vms \<longrightarrow>
      map TreeNode.Name (filter (\<lambda>n. Type n = GroupNode) (BuildFromVMs vms')) =
      map TreeNode.Name (filter (\<lambda>n. Type n = GroupNode) (BuildFromVMs vms)))"
proof -
  have "sorted_wrt (<) (group_names vms)"
    by (simp add: strict_sorted_iff group_names_props)
  moreover have "group_names vms' = group_names vms" if "set vms' = set vms"
    using that by (simp add: group_names_def)
  ultimately have
    "sorted_wrt (<) (group_names vms) \<and>
     set (group_names vms) = GetInstanceGroup ` set vms - {[]} \<and>
     map TreeNode.Name (filter (\<lambda>n. Type n = GroupNode) (BuildFromVMs vms)) = group_names vms \<and>
     (set vms' = set vms \<longrightarrow>
        map TreeNode.Name (filter (\<lambda>n. Type n = GroupNode) (BuildFromVMs vms')) =
        map TreeNode.Name (filter (\<lambda>n. Type n = GroupNode) (BuildFromVMs vms)))"
    by (simp add: group_node_names_BuildFromVMs group_names_props)
  then show ?thesis
    using BuildFromVMs_eq [of vms] by (rule conjI [rotated])
qed

theorem BuildFromVMs_structure_witness:
  "set [vm_db_1, vm_web_2, vm_web_1] = set example_vms \<and>
   BuildFromVMs example_vms = [node_web_fleet False, node_db_1] \<and>
   map TreeNode.Name (BuildFromVMs [vm_db_1, vm_web_2, vm_web_1]) = [''web-fleet'', ''db-1''] \<and>
   map TreeNode.Name (filter (\<lambda>n. Type n = GroupNode) (BuildFromVMs [vm_db_1, vm_web_2, vm_web_1]))
     = [''web-fleet'']"
proof -
  have s: "set [vm_db_1, vm_web_2, vm_web_1] = set example_vms"
    by (auto simp: example_vms_def)
  have b: "BuildFromVMs example_vms = [node_web_fleet False, node_db_1]"
    by code_simp
  have c: "map TreeNode.Name (BuildFromVMs [vm_db_1, vm_web_2, vm_web_1]) = [''web-fleet'', ''db-1'']"
    by code_simp
  have "map TreeNode.Name (filter (\<lambda>n. Type n = GroupNode) (BuildFromVMs [vm_db_1, vm_web_2, vm_web_1]))
     = map TreeNode.Name (filter (\<lambda>n. Type n = GroupNode) (BuildFromVMs example_vms))"
    using BuildFromVMs_structure [of example_vms "[vm_db_1, vm_web_2, vm_web_1]"] s by blast
  then show ?thesis using s b c by (simp add: node_web_fleet_def node_db_1_def)
qed

subsection \<open>Grouping\<close>

text \<open>
  C2, as the code has it. The group of a record is the first group name that its
  \<open>created-by\<close> entries offer: the segment after the first segment named
  \<open>instanceGroupManagers\<close> that has a next segment, in the first \<open>created-by\<close> entry
  that has one; it is empty when there is none. So a record with a non-empty group has
  a \<open>created-by\<close> entry with a segment \<open>instanceGroupManagers\<close> followed by that
  group's name, and a record without any such entry (also one without metadata) has
  the empty group. \<open>BuildFromVMs\<close> puts under the group node named \<open>g\<close> exactly the
  records whose group is \<open>g\<close>, for non-empty \<open>g\<close>, and makes top-level instance nodes
  of exactly the records whose group is empty.
\<close>

theorem GetInstanceGroup_first_candidate:
  "GetInstanceGroup vm =
     (case group_candidates (metadata_items vm) of [] \<Rightarrow> [] | g # _ \<Rightarrow> g) \<and>
   (GetInstanceGroup vm \<noteq> [] \<longrightarrow> has_group_entry vm (GetInstanceGroup vm)) \<and>
   ((\<forall>g'. \<not> has_group_entry vm g') \<longrightarrow> GetInstanceGroup vm = []) \<and>
   (g \<noteq> [] \<longrightarrow>
      members_of (BuildFromVMs vms) g =
        map Some (filter (\<lambda>vm. GetInstanceGroup vm = g) vms)) \<and>
   members_of (BuildFromVMs vms) [] = [] \<and>
   ungrouped_of (BuildFromVMs vms) = map Some (filter (\<lambda>vm. GetInstanceGroup vm = []) vms)"
proof -
  have a: "GetInstanceGroup vm =
     (case group_candidates (metadata_items vm) of [] \<Rightarrow> [] | g # _ \<Rightarrow> g)"
    by (rule GetInstanceGroup_candidates)
  have b: "has_group_entry vm (GetInstanceGroup vm)" if "GetInstanceGroup vm \<noteq> []"
    using that a by (cases "group_candidates (metadata_items vm)")
      (auto simp: has_group_entry_candidates)
  have c: "GetInstanceGroup vm = []" if "\<forall>g'. \<not> has_group_entry vm g'"
    using that b by blast
  show ?thesis
    using a b c by (simp add: members_of_BuildFromVMs ungrouped_of_BuildFromVMs)
qed

theorem GetInstanceGroup_first_candidate_witness:
  "GetInstanceGroup vm_two_managers = ''alpha'' \<and>
   has_group_entry vm_two_managers ''alpha'' \<and>
   (\<forall>g'. \<not> has_group_entry vm_db_1 g') \<and>
   GetInstanceGroup vm_db_1 = [] \<and>
   ''web-fleet'' \<noteq> [] \<and>
   members_of (BuildFromVMs example_vms) ''web-fleet'' = [Some vm_web_1, Some vm_web_2] \<and>
   ungrouped_of (BuildFromVMs example_vms) = [Some vm_db_1]"
proof -
  have g: "GetInstanceGroup vm_two_managers = ''alpha''" by code_simp
  have n: "\<forall>g'. \<not> has_group_entry vm_db_1 g'"
    by (simp add: has_group_entry_def metadata_items_def vm_db_1_def)
  have w: "GetInstanceGroup vm_web_1 = ''web-fleet''" "GetInstanceGroup vm_web_2 = ''web-fleet''"
    by code_simp+
  have "GetInstanceGroup vm_two_managers \<noteq> [] \<longrightarrow>
      has_group_entry vm_two_managers (GetInstanceGroup vm_two_managers)"
    using GetInstanceGroup_first_candidate [of vm_two_managers] by blast
  then have h: "has_group_entry vm_two_managers ''alpha''"
    by (simp add: g)
  have d: "GetInstanceGroup vm_db_1 = []"
    using GetInstanceGroup_first_candidate [of vm_db_1] n by blast
  have "members_of (BuildFromVMs example_vms) ''web-fleet'' = [Some vm_web_1, Some vm_web_2]"
    "ungrouped_of (BuildFromVMs example_vms) = [Some vm_db_1]"
    using GetInstanceGroup_first_candidate [of _ "''web-fleet''" example_vms] w d
    by (simp_all add: example_vms_def)
  then show ?thesis using g h n d by simp
qed

text \<open>
  The converse fails: a record whose \<open>created-by\<close> path has the segment
  \<open>instanceGroupManagers\<close> followed by \<open>beta\<close> is not put under \<open>beta\<close> when an
  earlier such segment is followed by \<open>alpha\<close>.
\<close>

theorem created_by_iff_counterexample:
  "has_group_entry vm_two_managers ''beta'' \<and>
   GetInstanceGroup vm_two_managers = ''alpha'' \<and>
   members_of (BuildFromVMs [vm_two_managers]) ''beta'' = [] \<and>
   members_of (BuildFromVMs [vm_two_managers]) ''alpha'' = [Some vm_two_managers]"
  by code_simp

section \<open>Properties of the controller\<close>

subsection \<open>Rendering and the refresh of the list\<close>

lemma RenderNode_ok: "renderable n \<Longrightarrow> \<exists>item. RenderNode ui n = Inr item"
  by (cases "Type n") (auto simp: renderable_def RenderNode_def Repeat_def Let_def)

lemma render_items_ok:
  "\<forall>n \<in> set rows. renderable n \<Longrightarrow> \<exists>items. render_items ui rows = Inr items"
proof (induction rows)
  case Nil
  then show ?case by simp
next
  case (Cons n rows)
  then obtain item items where "RenderNode ui n = Inr item" "render_items ui rows = Inr items"
    using RenderNode_ok [of n ui] by auto
  then show ?case by simp
qed

lemma well_formed_rows:
  "well_formed nodes \<Longrightarrow> \<forall>n \<in> set (FlattenForDisplay nodes). renderable n"
  by (auto simp: well_formed_def FlattenForDisplay_eq expanded_children_def split: if_splits)

lemma well_formed_Filter: "well_formed nodes \<Longrightarrow> well_formed (Filter lower nodes q)"
  by (auto simp: well_formed_def Filter_eq filter_node_def derived_group_def renderable_def Let_def
      split: if_splits)

lemma set_IsExpanded_sel:
  "Type (set_IsExpanded b n) = Type n" "TreeNode.Name (set_IsExpanded b n) = TreeNode.Name n"
  "TreeNode.VM (set_IsExpanded b n) = TreeNode.VM n" "GroupName (set_IsExpanded b n) = GroupName n"
  "IsExpanded (set_IsExpanded b n) = b" "Children (set_IsExpanded b n) = Children n"
  "Depth (set_IsExpanded b n) = Depth n"
  by (simp_all add: set_IsExpanded_def)

lemma renderable_set_IsExpanded: "renderable (set_IsExpanded b n) = renderable n"
  by (simp add: renderable_def set_IsExpanded_sel)

lemma toggle_loop_set:
  "n \<in> set (toggle_loop name nodes) \<Longrightarrow>
   n \<in> set nodes \<or> (\<exists>g \<in> set nodes. n = set_IsExpanded (\<not> IsExpanded g) g)"
proof (induction nodes)
  case Nil
  then show ?case by simp
next
  case (Cons a nodes)
  show ?case
  proof (cases "Type a = GroupNode \<and> TreeNode.Name a = name")
    case True
    with Cons.prems have "n = set_IsExpanded (\<not> IsExpanded a) a \<or> n \<in> set nodes" by auto
    then show ?thesis by auto
  next
    case False
    with Cons.prems have "n = a \<or> n \<in> set (toggle_loop name nodes)" by auto
    then show ?thesis using Cons.IH by auto
  qed
qed

lemma well_formed_toggle_loop:
  assumes "well_formed nodes"
  shows "well_formed (toggle_loop name nodes)"
  unfolding well_formed_def
proof
  fix n assume "n \<in> set (toggle_loop name nodes)"
  then consider "n \<in> set nodes"
    | g where "g \<in> set nodes" "n = set_IsExpanded (\<not> IsExpanded g) g"
    using toggle_loop_set by blast
  then show "renderable n \<and> (\<forall>c \<in> set (Children n). renderable c)"
  proof cases
    case 1
    then show ?thesis using assms by (simp add: well_formed_def)
  next
    case 2
    then show ?thesis
      using assms by (simp add: well_formed_def renderable_set_IsExpanded set_IsExpanded_sel)
  qed
qed

lemma well_formed_ToggleNode: "well_formed nodes \<Longrightarrow> well_formed (ToggleNode nodes target)"
  by (simp add: ToggleNode_def well_formed_toggle_loop)

lemma well_formed_BuildFromVMs: "well_formed (BuildFromVMs vms)"
  by (auto simp: well_formed_def BuildFromVMs_eq renderable_def)

lemma updateVMList_ok:
  assumes "well_formed (treeManager m)"
  shows "\<exists>m'. updateVMList ui m = Inr m'"
proof -
  let ?show = "if filtering m \<and> filterText m \<noteq> [] then Filter (strings_ToLower ui) (treeManager m) (filterText m)
               else treeManager m"
  have "well_formed ?show" using assms by (simp add: well_formed_Filter)
  then obtain items where "render_items ui (FlattenForDisplay ?show) = Inr items"
    using render_items_ok well_formed_rows by blast
  then show ?thesis by (simp add: updateVMList_def Let_def)
qed

lemma updateVMList_InrE:
  assumes "updateVMList ui m = Inr m'"
  obtains rows l where "m' = m\<lparr> currentlyDisplayedNodes := rows, list := l \<rparr>"
  using assms by (auto simp: updateVMList_def Let_def split: sum.splits)

lemma return_with_Inr:
  "return_with c r = Inr (m', cmd) \<longleftrightarrow> r = Inr m' \<and> cmd = c"
  by (cases r) (auto simp: return_with_def)

lemma q_is_not_special:
  "''q'' \<noteq> ''esc''" "''q'' \<noteq> ''backspace''" "''q'' \<noteq> ''ctrl+h''" "''q'' \<noteq> ''enter''"
  "length ''q'' = 1" "isValidFilterChar (hd ''q'')"
  by (simp_all add: isValidFilterChar_def)

lemma handleFilteringInput_q:
  "handleFilteringInput ui ''q'' m =
     return_with NoCmd (updateVMList ui (m\<lparr> filterText := filterText m @ ''q'' \<rparr>))"
  unfolding handleFilteringInput_def using q_is_not_special by simp

lemma handleFilteringInput_ctrl_c: "handleFilteringInput ui ''ctrl+c'' m = Inr (m, NoCmd)"
  by (simp add: handleFilteringInput_def)

lemma handleFilteringInput_esc:
  "handleFilteringInput ui ''esc'' m =
     return_with NoCmd (updateVMList ui (m\<lparr> filtering := False, filterText := [] \<rparr>))"
  by (simp add: handleFilteringInput_def)

lemma handleFilteringInput_backspace:
  "keypress = ''backspace'' \<or> keypress = ''ctrl+h'' \<Longrightarrow>
   handleFilteringInput ui keypress m =
     (if length (filterText m) > 0 then
        return_with NoCmd (updateVMList ui (m\<lparr> filterText := butlast (filterText m) \<rparr>))
      else Inr (m, NoCmd))"
  by (auto simp: handleFilteringInput_def)

lemma handleFilteringInput_enter:
  "handleFilteringInput ui ''enter'' m =
     (case getCurrentNode ui m of
        None \<Rightarrow> Inr (m, NoCmd)
      | Some currentNode \<Rightarrow>
          if Type currentNode = InstanceNode then
            Inr (m\<lparr> selectedVM := TreeNode.VM currentNode, state := StateReadyToConnect \<rparr>, Quit)
          else
            return_with NoCmd
              (updateVMList ui
                 (m\<lparr> treeManager := ToggleNode (treeManager m) currentNode \<rparr>)))"
proof -
  have "Type n \<noteq> InstanceNode \<Longrightarrow> Type n = GroupNode" for n
    by (cases "Type n") auto
  then show ?thesis
    by (auto simp: handleFilteringInput_def ToggleNode_def split: option.splits)
qed

lemma handleFilteringInput_other:
  "keypress \<noteq> ''esc'' \<Longrightarrow> keypress \<noteq> ''backspace'' \<Longrightarrow> keypress \<noteq> ''ctrl+h'' \<Longrightarrow>
   keypress \<noteq> ''enter'' \<Longrightarrow>
   handleFilteringInput ui keypress m =
     (if length keypress = 1 \<and> isValidFilterChar (hd keypress) then
        return_with NoCmd (updateVMList ui (m\<lparr> filterText := filterText m @ keypress \<rparr>))
      else Inr (m, NoCmd))"
  unfolding handleFilteringInput_def by simp

lemma handleFilteringInput_result:
  assumes r: "handleFilteringInput ui keypress m = Inr (m', cmd)"
  shows "quitting m' = quitting m \<and>
    (state m' = state m \<or>
         (state m' = StateReadyToConnect \<and> keypress = ''enter'' \<and> cmd = Quit \<and>
          (\<exists>node. getCurrentNode ui m = Some node \<and> Type node = InstanceNode \<and>
                  selectedVM m' = TreeNode.VM node))) \<and>
    (cmd = NoCmd \<or> (cmd = Quit \<and> state m' = StateReadyToConnect)) \<and>
    (filtering m' = filtering m \<or>
         (keypress = ''esc'' \<and> \<not> filtering m' \<and> filterText m' = [] \<and> state m' = state m \<and>
          cmd = NoCmd))"
proof -
  consider (esc) "keypress = ''esc''"
    | (bs) "keypress = ''backspace'' \<or> keypress = ''ctrl+h''"
    | (enter) "keypress = ''enter''"
    | (other) "keypress \<noteq> ''esc''" "keypress \<noteq> ''backspace''" "keypress \<noteq> ''ctrl+h''"
        "keypress \<noteq> ''enter''"
    by blast
  then show ?thesis
  proof cases
    case esc
    with r have "updateVMList ui (m\<lparr> filtering := False, filterText := [] \<rparr>) = Inr m'" "cmd = NoCmd"
      by (simp_all add: handleFilteringInput_esc return_with_Inr)
    then show ?thesis using esc by (auto elim!: updateVMList_InrE)
  next
    case bs
    show ?thesis
    proof (cases "length (filterText m) > 0")
      case True
      with r bs have "updateVMList ui (m\<lparr> filterText := butlast (filterText m) \<rparr>) = Inr m'"
        "cmd = NoCmd"
        by (simp_all add: handleFilteringInput_backspace return_with_Inr)
      then show ?thesis by (auto elim!: updateVMList_InrE)
    next
      case False
      with r bs have "m' = m" "cmd = NoCmd"
        by (simp_all add: handleFilteringInput_backspace)
      then show ?thesis by simp
    qed
  next
    case enter
    show ?thesis
    proof (cases "getCurrentNode ui m")
      case None
      with r enter have "m' = m" "cmd = NoCmd"
        by (simp_all add: handleFilteringInput_enter)
      then show ?thesis by simp
    next
      case (Some node)
      show ?thesis
      proof (cases "Type node = InstanceNode")
        case True
        with r enter Some
        have "m' = m\<lparr> selectedVM := TreeNode.VM node, state := StateReadyToConnect \<rparr>" "cmd = Quit"
          by (simp_all add: handleFilteringInput_enter)
        then show ?thesis using enter Some True by simp
      next
        case False
        with r enter Some
        have "updateVMList ui (m\<lparr> treeManager := ToggleNode (treeManager m) node \<rparr>) = Inr m'"
          "cmd = NoCmd"
          by (simp_all add: handleFilteringInput_enter return_with_Inr)
        then show ?thesis by (auto elim!: updateVMList_InrE)
      qed
    qed
  next
    case other
    show ?thesis
    proof (cases "length keypress = 1 \<and> isValidFilterChar (hd keypress)")
      case True
      with r other have "updateVMList ui (m\<lparr> filterText := filterText m @ keypress \<rparr>) = Inr m'"
        "cmd = NoCmd"
        by (simp_all add: handleFilteringInput_other return_with_Inr)
      then show ?thesis by (auto elim!: updateVMList_InrE)
    next
      case False
      then have "m' = m" "cmd = NoCmd"
        using handleFilteringInput_other [OF other, of ui m] r by (auto split: if_splits)
      then show ?thesis by simp
    qed
  qed
qed

lemma handleFilteringInput_ok:
  assumes "well_formed (treeManager m)"
  shows "\<exists>m' cmd. handleFilteringInput ui keypress m = Inr (m', cmd)"
proof -
  have u: "\<exists>m'. updateVMList ui x = Inr m'" if "well_formed (treeManager x)" for x :: "'a model"
    using that by (rule updateVMList_ok)
  have rw: "\<exists>m' cmd. return_with c (updateVMList ui x) = Inr (m', cmd)"
    if "well_formed (treeManager x)" for x :: "'a model" and c
    using u [OF that] by (auto simp: return_with_def)
  consider (esc) "keypress = ''esc''"
    | (bs) "keypress = ''backspace'' \<or> keypress = ''ctrl+h''"
    | (enter) "keypress = ''enter''"
    | (other) "keypress \<noteq> ''esc''" "keypress \<noteq> ''backspace''" "keypress \<noteq> ''ctrl+h''"
        "keypress \<noteq> ''enter''"
    by blast
  then show ?thesis
  proof cases
    case esc
    then show ?thesis using rw [of "m\<lparr> filtering := False, filterText := [] \<rparr>"] assms
      by (simp add: handleFilteringInput_esc)
  next
    case bs
    then show ?thesis using rw [of "m\<lparr> filterText := butlast (filterText m) \<rparr>"] assms
      by (simp add: handleFilteringInput_backspace)
  next
    case enter
    show ?thesis
    proof (cases "getCurrentNode ui m")
      case None
      then show ?thesis using enter by (simp add: handleFilteringInput_enter)
    next
      case (Some node)
      then show ?thesis
        using enter rw [of "m\<lparr> treeManager := ToggleNode (treeManager m) node \<rparr>"] assms
        by (simp add: handleFilteringInput_enter well_formed_ToggleNode)
    qed
  next
    case other
    then show ?thesis using rw [of "m\<lparr> filterText := filterText m @ keypress \<rparr>"] assms
      by (simp add: handleFilteringInput_other)
  qed
qed

lemma q_not_navigation: "\<not> shouldHandleNavigation m ''q''"
  by (simp add: shouldHandleNavigation_def)

subsection \<open>Toggling\<close>

lemma toggle_loop_absent:
  "\<forall>n \<in> set nodes. \<not> (Type n = GroupNode \<and> TreeNode.Name n = name) \<Longrightarrow>
   toggle_loop name nodes = nodes"
  by (induction nodes) auto

lemma toggle_loop_found:
  "\<exists>n \<in> set nodes. Type n = GroupNode \<and> TreeNode.Name n = name \<Longrightarrow>
   \<exists>pre g post. nodes = pre @ g # post \<and> Type g = GroupNode \<and> TreeNode.Name g = name \<and>
     (\<forall>n \<in> set pre. \<not> (Type n = GroupNode \<and> TreeNode.Name n = name)) \<and>
     toggle_loop name nodes = pre @ set_IsExpanded (\<not> IsExpanded g) g # post"
proof (induction nodes)
  case Nil
  then show ?case by simp
next
  case (Cons a nodes)
  show ?case
  proof (cases "Type a = GroupNode \<and> TreeNode.Name a = name")
    case True
    then have "a # nodes = [] @ a # nodes \<and> Type a = GroupNode \<and> TreeNode.Name a = name \<and>
      (\<forall>n \<in> set []. \<not> (Type n = GroupNode \<and> TreeNode.Name n = name)) \<and>
      toggle_loop name (a # nodes) = [] @ set_IsExpanded (\<not> IsExpanded a) a # nodes"
      by simp
    then show ?thesis by blast
  next
    case False
    then have "\<exists>n \<in> set nodes. Type n = GroupNode \<and> TreeNode.Name n = name"
      using Cons.prems by auto
    then obtain pre g post where p: "nodes = pre @ g # post" "Type g = GroupNode"
      "TreeNode.Name g = name"
      "\<forall>n \<in> set pre. \<not> (Type n = GroupNode \<and> TreeNode.Name n = name)"
      "toggle_loop name nodes = pre @ set_IsExpanded (\<not> IsExpanded g) g # post"
      using Cons.IH by blast
    have "toggle_loop name (a # nodes) = a # toggle_loop name nodes"
      using False by auto
    with p have "a # nodes = (a # pre) @ g # post \<and> Type g = GroupNode \<and> TreeNode.Name g = name \<and>
      (\<forall>n \<in> set (a # pre). \<not> (Type n = GroupNode \<and> TreeNode.Name n = name)) \<and>
      toggle_loop name (a # nodes) = (a # pre) @ set_IsExpanded (\<not> IsExpanded g) g # post"
      using False by auto
    then show ?thesis by blast
  qed
qed

lemma Filter_group_origin:
  assumes "target \<in> set (Filter lower nodes q)" "Type target = GroupNode"
  shows "\<exists>n \<in> set nodes. Type n = GroupNode \<and> TreeNode.Name n = TreeNode.Name target"
proof (cases "q = []")
  case True
  then show ?thesis using assms by (auto simp: Filter_def)
next
  case False
  then obtain n where "n \<in> set nodes" "target \<in> set (filter_node lower (lower q) n)"
    using assms by (auto simp: Filter_eq)
  then show ?thesis
    using assms(2) by (auto simp: filter_node_def derived_group_def Let_def split: if_splits)
qed

text \<open>
  C4. Toggling works on the manager's own list, by the name of the target. A target
  that is an instance node, or a group node whose name no group node of the list
  has, leaves the list as it is. For a group node taken from a filtered view of the
  list, a group node of that name is in the list, and \<open>ToggleNode\<close> negates
  \<open>IsExpanded\<close> of the first such node and changes nothing else; the rows of the
  unfiltered list then show that group with the new flag, followed by its children
  exactly when it is now expanded. In the filtering mode, \<open>enter\<close> on a group row does
  this toggle on the manager's list and refreshes the rows.
\<close>

theorem ToggleNode_targets_canonical:
  "(Type target = InstanceNode \<longrightarrow> ToggleNode nodes target = nodes) \<and>
   (Type target = GroupNode \<and>
    (\<forall>n \<in> set nodes. \<not> (Type n = GroupNode \<and> TreeNode.Name n = TreeNode.Name target)) \<longrightarrow>
      ToggleNode nodes target = nodes) \<and>
   (Type target = GroupNode \<and> target \<in> set (Filter lower nodes q) \<longrightarrow>
      (\<exists>pre g post.
         nodes = pre @ g # post \<and> Type g = GroupNode \<and>
         TreeNode.Name g = TreeNode.Name target \<and>
         (\<forall>n \<in> set pre. \<not> (Type n = GroupNode \<and> TreeNode.Name n = TreeNode.Name target)) \<and>
         ToggleNode nodes target = pre @ set_IsExpanded (\<not> IsExpanded g) g # post \<and>
         FlattenForDisplay (ToggleNode nodes target) =
           FlattenForDisplay pre
             @ set_IsExpanded (\<not> IsExpanded g) g # (if IsExpanded g then [] else Children g)
             @ FlattenForDisplay post)) \<and>
   (state m = StateSelectingVM \<and> filtering m \<and> getCurrentNode ui m = Some target \<and>
    Type target = GroupNode \<longrightarrow>
      handleKeyPress ui ''enter'' m =
        return_with NoCmd
          (updateVMList ui (m\<lparr> treeManager := ToggleNode (treeManager m) target \<rparr>)))"
proof -
  have a: "ToggleNode nodes target = nodes" if "Type target = InstanceNode"
    using that by (simp add: ToggleNode_def)
  have b: "ToggleNode nodes target = nodes"
    if "Type target = GroupNode"
      "\<forall>n \<in> set nodes. \<not> (Type n = GroupNode \<and> TreeNode.Name n = TreeNode.Name target)"
    using that by (simp add: ToggleNode_def toggle_loop_absent)
  have c: "\<exists>pre g post.
         nodes = pre @ g # post \<and> Type g = GroupNode \<and>
         TreeNode.Name g = TreeNode.Name target \<and>
         (\<forall>n \<in> set pre. \<not> (Type n = GroupNode \<and> TreeNode.Name n = TreeNode.Name target)) \<and>
         ToggleNode nodes target = pre @ set_IsExpanded (\<not> IsExpanded g) g # post \<and>
         FlattenForDisplay (ToggleNode nodes target) =
           FlattenForDisplay pre
             @ set_IsExpanded (\<not> IsExpanded g) g # (if IsExpanded g then [] else Children g)
             @ FlattenForDisplay post"
    if t: "Type target = GroupNode" "target \<in> set (Filter lower nodes q)"
  proof -
    obtain pre g post where p: "nodes = pre @ g # post" "Type g = GroupNode"
      "TreeNode.Name g = TreeNode.Name target"
      "\<forall>n \<in> set pre. \<not> (Type n = GroupNode \<and> TreeNode.Name n = TreeNode.Name target)"
      "toggle_loop (TreeNode.Name target) nodes = pre @ set_IsExpanded (\<not> IsExpanded g) g # post"
      using toggle_loop_found [OF Filter_group_origin [OF t(2) t(1)]] by blast
    have tn: "ToggleNode nodes target = pre @ set_IsExpanded (\<not> IsExpanded g) g # post"
      using t(1) p(5) by (simp add: ToggleNode_def)
    have "FlattenForDisplay (pre @ set_IsExpanded (\<not> IsExpanded g) g # post) =
           FlattenForDisplay pre
             @ set_IsExpanded (\<not> IsExpanded g) g # (if IsExpanded g then [] else Children g)
             @ FlattenForDisplay post"
      using p(2) by (simp add: FlattenForDisplay_eq expanded_children_def set_IsExpanded_sel)
    then show ?thesis using p tn by metis
  qed
  have d: "handleKeyPress ui ''enter'' m =
        return_with NoCmd
          (updateVMList ui (m\<lparr> treeManager := ToggleNode (treeManager m) target \<rparr>))"
    if "state m = StateSelectingVM" "filtering m" "getCurrentNode ui m = Some target"
      "Type target = GroupNode"
    using that by (simp add: handleKeyPress_def handleFilteringInput_enter)
  from a b c d show ?thesis by blast
qed

theorem ToggleNode_targets_canonical_witness:
  "Type (node_web_fleet True) = GroupNode \<and>
   node_web_fleet True \<in> set (Filter ToLower_ascii [node_web_fleet False, node_db_1] ''web'') \<and>
   ToggleNode [node_web_fleet False, node_db_1] (node_web_fleet True) =
     [node_web_fleet True, node_db_1] \<and>
   FlattenForDisplay (ToggleNode [node_web_fleet False, node_db_1] (node_web_fleet True)) =
     [node_web_fleet True, node_web_1, node_web_2, node_db_1] \<and>
   ToggleNode [node_web_fleet False, node_db_1] node_db_1 = [node_web_fleet False, node_db_1] \<and>
   getCurrentNode plain_ui model_filtering = Some (node_web_fleet True) \<and>
   handleKeyPress plain_ui ''enter'' model_filtering =
     return_with NoCmd
       (updateVMList plain_ui
          (model_filtering\<lparr> treeManager := [node_web_fleet True, node_db_1] \<rparr>))"
proof -
  let ?nodes = "[node_web_fleet False, node_db_1]"
  have t: "Type (node_web_fleet True) = GroupNode"
    by (simp add: node_web_fleet_def)
  have f: "Filter ToLower_ascii ?nodes ''web'' = [node_web_fleet True]"
    by code_simp
  have i: "Type node_db_1 = InstanceNode"
    by (simp add: node_db_1_def)
  have g: "getCurrentNode plain_ui model_filtering = Some (node_web_fleet True)"
    by (simp add: getCurrentNode_def plain_ui_def model_filtering_def)
  have s: "state model_filtering = StateSelectingVM" "filtering model_filtering"
    "treeManager model_filtering = ?nodes"
    by (simp_all add: model_filtering_def)
  note T = ToggleNode_targets_canonical [where target = "node_web_fleet True"
      and nodes = ?nodes and lower = ToLower_ascii and q = "''web''" and m = model_filtering
      and ui = plain_ui]
  note I = ToggleNode_targets_canonical [where target = node_db_1
      and nodes = ?nodes and lower = ToLower_ascii and q = "''web''" and m = model_filtering
      and ui = plain_ui]
  have "Type (node_web_fleet True) = GroupNode \<and>
      node_web_fleet True \<in> set (Filter ToLower_ascii ?nodes ''web'')"
    using t f by simp
  with T [THEN conjunct2, THEN conjunct2, THEN conjunct1]
  obtain pre g' post where p: "?nodes = pre @ g' # post" "Type g' = GroupNode"
    "TreeNode.Name g' = TreeNode.Name (node_web_fleet True)"
    "ToggleNode ?nodes (node_web_fleet True) = pre @ set_IsExpanded (\<not> IsExpanded g') g' # post"
    "FlattenForDisplay (ToggleNode ?nodes (node_web_fleet True)) =
           FlattenForDisplay pre
             @ set_IsExpanded (\<not> IsExpanded g') g' # (if IsExpanded g' then [] else Children g')
             @ FlattenForDisplay post"
    by blast
  have "pre = [] \<and> g' = node_web_fleet False \<and> post = [node_db_1]"
    using p(1,2) i by (cases pre) (auto simp: Cons_eq_append_conv)
  moreover have "FlattenForDisplay [] = []"
    by (simp add: FlattenForDisplay_def)
  ultimately have tg: "ToggleNode ?nodes (node_web_fleet True) = [node_web_fleet True, node_db_1]"
    and fl: "FlattenForDisplay (ToggleNode ?nodes (node_web_fleet True)) =
       node_web_fleet True # [node_web_1, node_web_2] @ FlattenForDisplay [node_db_1]"
    using p(4,5) by (simp_all add: node_web_fleet_def set_IsExpanded_def)
  have fd: "FlattenForDisplay [node_db_1] = [node_db_1]"
    by code_simp
  have ti: "ToggleNode ?nodes node_db_1 = ?nodes"
    using I [THEN conjunct1] i by simp
  have hk: "handleKeyPress plain_ui ''enter'' model_filtering =
     return_with NoCmd
       (updateVMList plain_ui
          (model_filtering\<lparr> treeManager := [node_web_fleet True, node_db_1] \<rparr>))"
    using T [THEN conjunct2, THEN conjunct2, THEN conjunct2] t g s tg by simp
  show ?thesis using t f tg fl fd ti g hk by simp
qed

subsection \<open>Keys while filtering\<close>

text \<open>
  C10. In the state \<open>StateSelectingVM\<close> with filtering active, no key press quits:
  after any key, the state is not \<open>StateQuitting\<close> and the flag \<open>quitting\<close> is as
  before; the state is still \<open>StateSelectingVM\<close>, or it is \<open>StateReadyToConnect\<close> and
  then the key was \<open>enter\<close> on an instance row, which is selected; filtering is still
  active unless the key was \<open>esc\<close>, which clears the query and stays in
  \<open>StateSelectingVM\<close>. The key handler returns \<open>tea.Quit\<close> only together with
  \<open>StateReadyToConnect\<close>. The key \<open>q\<close> appends to the query and \<open>ctrl+c\<close> changes
  nothing. On a tree that can be rendered the handler returns for every key. (A
  navigation key goes to the list widget, and the command is then the widget's.)
  The exits do what they are for: \<open>esc\<close> refreshes the rows of the model with
  filtering off and the query empty, so it leaves filtering, clears the query and
  stays in \<open>StateSelectingVM\<close>, and it returns on a tree that can be rendered;
  \<open>enter\<close> on an instance row stores the row's instance as selected, goes to
  \<open>StateReadyToConnect\<close> and returns \<open>tea.Quit\<close>. The other keys are as the handler
  has them: \<open>backspace\<close> and \<open>ctrl+h\<close> drop the last byte of a query that is not
  empty, \<open>enter\<close> without a current row does nothing, and any other key appends itself
  when it is one valid filter character and does nothing otherwise.
\<close>

theorem filtering_keys_never_quit:
  assumes "state m = StateSelectingVM" and "filtering m"
  shows
   "(\<forall>m' cmd. Update ui (KeyMsg keypress) m = Inr (m', cmd) \<longrightarrow>
        state m' \<noteq> StateQuitting \<and> quitting m' = quitting m \<and>
        (state m' = StateSelectingVM \<or>
         (state m' = StateReadyToConnect \<and> keypress = ''enter'' \<and> cmd = Quit \<and>
          (\<exists>node. getCurrentNode ui m = Some node \<and> Type node = InstanceNode \<and>
                  selectedVM m' = TreeNode.VM node))) \<and>
        (filtering m' \<or>
         (keypress = ''esc'' \<and> filterText m' = [] \<and> state m' = StateSelectingVM \<and> cmd = NoCmd))) \<and>
    (\<forall>m' cmd. handleKeyPress ui keypress m = Inr (m', cmd) \<longrightarrow>
        cmd = NoCmd \<or> (cmd = Quit \<and> state m' = StateReadyToConnect)) \<and>
    handleKeyPress ui ''q'' m =
      return_with NoCmd (updateVMList ui (m\<lparr> filterText := filterText m @ ''q'' \<rparr>)) \<and>
    handleKeyPress ui ''ctrl+c'' m = Inr (m, NoCmd) \<and>
    (well_formed (treeManager m) \<longrightarrow>
       (\<exists>m' cmd. handleKeyPress ui keypress m = Inr (m', cmd)) \<and>
       (\<exists>m'. Update ui (KeyMsg ''q'') m = Inr (m', NoCmd) \<and> state m' = StateSelectingVM \<and>
             filtering m' \<and> quitting m' = quitting m \<and> filterText m' = filterText m @ ''q'')) \<and>
    Update ui (KeyMsg ''esc'') m =
      return_with NoCmd (updateVMList ui (m\<lparr> filtering := False, filterText := [] \<rparr>)) \<and>
    (\<forall>m' cmd. Update ui (KeyMsg ''esc'') m = Inr (m', cmd) \<longrightarrow>
        \<not> filtering m' \<and> filterText m' = [] \<and> state m' = StateSelectingVM \<and>
        quitting m' = quitting m \<and> treeManager m' = treeManager m \<and> cmd = NoCmd) \<and>
    (well_formed (treeManager m) \<longrightarrow>
       (\<exists>m'. Update ui (KeyMsg ''esc'') m = Inr (m', NoCmd) \<and> \<not> filtering m' \<and>
             filterText m' = [] \<and> state m' = StateSelectingVM)) \<and>
    (\<forall>node. getCurrentNode ui m = Some node \<and> Type node = InstanceNode \<longrightarrow>
        Update ui (KeyMsg ''enter'') m =
          Inr (m\<lparr> selectedVM := TreeNode.VM node, state := StateReadyToConnect \<rparr>, Quit)) \<and>
    (getCurrentNode ui m = None \<longrightarrow> Update ui (KeyMsg ''enter'') m = Inr (m, NoCmd)) \<and>
    (keypress = ''backspace'' \<or> keypress = ''ctrl+h'' \<longrightarrow>
        Update ui (KeyMsg keypress) m =
          (if length (filterText m) > 0 then
             return_with NoCmd (updateVMList ui (m\<lparr> filterText := butlast (filterText m) \<rparr>))
           else Inr (m, NoCmd))) \<and>
    (keypress \<notin> {''esc'', ''backspace'', ''ctrl+h'', ''enter''} \<longrightarrow>
        handleKeyPress ui keypress m =
          (if length keypress = 1 \<and> isValidFilterChar (hd keypress) then
             return_with NoCmd (updateVMList ui (m\<lparr> filterText := filterText m @ keypress \<rparr>))
           else Inr (m, NoCmd)))"
proof -
  have hk: "handleKeyPress ui k m = handleFilteringInput ui k m" for k
    using assms by (simp add: handleKeyPress_def)
  have up: "Update ui (KeyMsg k) m = handleFilteringInput ui k m"
    if "k \<in> {''esc'', ''enter'', ''backspace'', ''ctrl+h''}" for k
    using that hk by (auto simp: Update_def shouldHandleNavigation_def)
  have a: "state m' \<noteq> StateQuitting \<and> quitting m' = quitting m \<and>
        (state m' = StateSelectingVM \<or>
         (state m' = StateReadyToConnect \<and> keypress = ''enter'' \<and> cmd = Quit \<and>
          (\<exists>node. getCurrentNode ui m = Some node \<and> Type node = InstanceNode \<and>
                  selectedVM m' = TreeNode.VM node))) \<and>
        (filtering m' \<or>
         (keypress = ''esc'' \<and> filterText m' = [] \<and> state m' = StateSelectingVM \<and> cmd = NoCmd))"
    if u: "Update ui (KeyMsg keypress) m = Inr (m', cmd)" for m' cmd
  proof (cases "shouldHandleNavigation m keypress")
    case True
    then obtain l where "m' = m\<lparr> list := l \<rparr>"
      using u by (auto simp: Update_def split: prod.splits)
    then show ?thesis using assms by simp
  next
    case False
    then have "handleFilteringInput ui keypress m = Inr (m', cmd)"
      using u hk by (simp add: Update_def)
    from handleFilteringInput_result [OF this] show ?thesis
      using assms by auto
  qed
  have b: "cmd = NoCmd \<or> (cmd = Quit \<and> state m' = StateReadyToConnect)"
    if "handleKeyPress ui keypress m = Inr (m', cmd)" for m' cmd
    using handleFilteringInput_result [of ui keypress m m' cmd] that hk by simp
  have c: "handleKeyPress ui ''q'' m =
      return_with NoCmd (updateVMList ui (m\<lparr> filterText := filterText m @ ''q'' \<rparr>))"
    by (simp only: hk handleFilteringInput_q)
  have d: "handleKeyPress ui ''ctrl+c'' m = Inr (m, NoCmd)"
    by (simp only: hk handleFilteringInput_ctrl_c)
  have e: "\<exists>m' cmd. handleKeyPress ui keypress m = Inr (m', cmd)"
    if "well_formed (treeManager m)"
    using handleFilteringInput_ok [OF that] hk by simp
  have f: "\<exists>m'. Update ui (KeyMsg ''q'') m = Inr (m', NoCmd) \<and> state m' = StateSelectingVM \<and>
             filtering m' \<and> quitting m' = quitting m \<and> filterText m' = filterText m @ ''q''"
    if w: "well_formed (treeManager m)"
  proof -
    obtain m' where m': "updateVMList ui (m\<lparr> filterText := filterText m @ ''q'' \<rparr>) = Inr m'"
      using updateVMList_ok [of "m\<lparr> filterText := filterText m @ ''q'' \<rparr>" ui] w by auto
    then have "Update ui (KeyMsg ''q'') m = Inr (m', NoCmd)"
      using c by (simp add: Update_def q_not_navigation return_with_def)
    moreover have "state m' = StateSelectingVM \<and> filtering m' \<and> quitting m' = quitting m \<and>
        filterText m' = filterText m @ ''q''"
      using m' assms by (auto elim!: updateVMList_InrE)
    ultimately show ?thesis by blast
  qed
  have g1: "Update ui (KeyMsg ''esc'') m =
      return_with NoCmd (updateVMList ui (m\<lparr> filtering := False, filterText := [] \<rparr>))"
    using up [of "''esc''"] by (simp add: handleFilteringInput_esc)
  have g2: "\<not> filtering m' \<and> filterText m' = [] \<and> state m' = StateSelectingVM \<and>
        quitting m' = quitting m \<and> treeManager m' = treeManager m \<and> cmd = NoCmd"
    if u: "Update ui (KeyMsg ''esc'') m = Inr (m', cmd)" for m' cmd
  proof -
    from u have "updateVMList ui (m\<lparr> filtering := False, filterText := [] \<rparr>) = Inr m'"
      and "cmd = NoCmd"
      by (simp_all add: g1 return_with_Inr)
    then show ?thesis using assms by (auto elim!: updateVMList_InrE)
  qed
  have g3: "\<exists>m'. Update ui (KeyMsg ''esc'') m = Inr (m', NoCmd) \<and> \<not> filtering m' \<and>
             filterText m' = [] \<and> state m' = StateSelectingVM"
    if w: "well_formed (treeManager m)"
  proof -
    obtain m' where m': "updateVMList ui (m\<lparr> filtering := False, filterText := [] \<rparr>) = Inr m'"
      using updateVMList_ok [of "m\<lparr> filtering := False, filterText := [] \<rparr>" ui] w by auto
    then have "Update ui (KeyMsg ''esc'') m = Inr (m', NoCmd)"
      by (simp add: g1 return_with_def)
    then show ?thesis using g2 by blast
  qed
  have g4: "Update ui (KeyMsg ''enter'') m =
          Inr (m\<lparr> selectedVM := TreeNode.VM node, state := StateReadyToConnect \<rparr>, Quit)"
    if "getCurrentNode ui m = Some node" "Type node = InstanceNode" for node
    using up [of "''enter''"] that by (simp add: handleFilteringInput_enter)
  have g5: "Update ui (KeyMsg ''enter'') m = Inr (m, NoCmd)" if "getCurrentNode ui m = None"
    using up [of "''enter''"] that by (simp add: handleFilteringInput_enter)
  have g6: "Update ui (KeyMsg keypress) m =
          (if length (filterText m) > 0 then
             return_with NoCmd (updateVMList ui (m\<lparr> filterText := butlast (filterText m) \<rparr>))
           else Inr (m, NoCmd))"
    if k: "keypress = ''backspace'' \<or> keypress = ''ctrl+h''"
  proof -
    have "Update ui (KeyMsg keypress) m = handleFilteringInput ui keypress m"
      using k by (intro up) auto
    then show ?thesis using handleFilteringInput_backspace [OF k, of ui m] by simp
  qed
  have g7: "handleKeyPress ui keypress m =
          (if length keypress = 1 \<and> isValidFilterChar (hd keypress) then
             return_with NoCmd (updateVMList ui (m\<lparr> filterText := filterText m @ keypress \<rparr>))
           else Inr (m, NoCmd))"
    if "keypress \<notin> {''esc'', ''backspace'', ''ctrl+h'', ''enter''}"
  proof -
    from that have n: "keypress \<noteq> ''esc''" "keypress \<noteq> ''backspace''"
      "keypress \<noteq> ''ctrl+h''" "keypress \<noteq> ''enter''"
      by auto
    show ?thesis
      unfolding hk by (rule handleFilteringInput_other [OF n])
  qed
  have A: "\<forall>m' cmd. Update ui (KeyMsg keypress) m = Inr (m', cmd) \<longrightarrow>
        state m' \<noteq> StateQuitting \<and> quitting m' = quitting m \<and>
        (state m' = StateSelectingVM \<or>
         (state m' = StateReadyToConnect \<and> keypress = ''enter'' \<and> cmd = Quit \<and>
          (\<exists>node. getCurrentNode ui m = Some node \<and> Type node = InstanceNode \<and>
                  selectedVM m' = TreeNode.VM node))) \<and>
        (filtering m' \<or>
         (keypress = ''esc'' \<and> filterText m' = [] \<and> state m' = StateSelectingVM \<and> cmd = NoCmd))"
    using a by blast
  have B: "\<forall>m' cmd. handleKeyPress ui keypress m = Inr (m', cmd) \<longrightarrow>
        cmd = NoCmd \<or> (cmd = Quit \<and> state m' = StateReadyToConnect)"
    using b by blast
  have EF: "well_formed (treeManager m) \<longrightarrow>
       (\<exists>m' cmd. handleKeyPress ui keypress m = Inr (m', cmd)) \<and>
       (\<exists>m'. Update ui (KeyMsg ''q'') m = Inr (m', NoCmd) \<and> state m' = StateSelectingVM \<and>
             filtering m' \<and> quitting m' = quitting m \<and> filterText m' = filterText m @ ''q'')"
    using e f by blast
  have G2: "\<forall>m' cmd. Update ui (KeyMsg ''esc'') m = Inr (m', cmd) \<longrightarrow>
        \<not> filtering m' \<and> filterText m' = [] \<and> state m' = StateSelectingVM \<and>
        quitting m' = quitting m \<and> treeManager m' = treeManager m \<and> cmd = NoCmd"
    using g2 by blast
  have G3: "well_formed (treeManager m) \<longrightarrow>
       (\<exists>m'. Update ui (KeyMsg ''esc'') m = Inr (m', NoCmd) \<and> \<not> filtering m' \<and>
             filterText m' = [] \<and> state m' = StateSelectingVM)"
    using g3 by blast
  have G4: "\<forall>node. getCurrentNode ui m = Some node \<and> Type node = InstanceNode \<longrightarrow>
        Update ui (KeyMsg ''enter'') m =
          Inr (m\<lparr> selectedVM := TreeNode.VM node, state := StateReadyToConnect \<rparr>, Quit)"
    using g4 by blast
  have G5: "getCurrentNode ui m = None \<longrightarrow> Update ui (KeyMsg ''enter'') m = Inr (m, NoCmd)"
    using g5 by blast
  have G6: "keypress = ''backspace'' \<or> keypress = ''ctrl+h'' \<longrightarrow>
        Update ui (KeyMsg keypress) m =
          (if length (filterText m) > 0 then
             return_with NoCmd (updateVMList ui (m\<lparr> filterText := butlast (filterText m) \<rparr>))
           else Inr (m, NoCmd))"
    using g6 by blast
  have G7: "keypress \<notin> {''esc'', ''backspace'', ''ctrl+h'', ''enter''} \<longrightarrow>
        handleKeyPress ui keypress m =
          (if length keypress = 1 \<and> isValidFilterChar (hd keypress) then
             return_with NoCmd (updateVMList ui (m\<lparr> filterText := filterText m @ keypress \<rparr>))
           else Inr (m, NoCmd))"
    using g7 by blast
  show ?thesis
    by (intro conjI) (fact A, fact B, fact c, fact d, fact EF, fact g1, fact G2, fact G3, fact G4,
        fact G5, fact G6, fact G7)
qed

theorem filtering_keys_never_quit_witness:
  "state model_filtering = StateSelectingVM \<and> filtering model_filtering \<and>
   well_formed (treeManager model_filtering) \<and>
   handleKeyPress plain_ui ''ctrl+c'' model_filtering = Inr (model_filtering, NoCmd) \<and>
   (\<exists>m'. Update plain_ui (KeyMsg ''q'') model_filtering = Inr (m', NoCmd) \<and>
         state m' = StateSelectingVM \<and> filtering m' \<and> \<not> quitting m' \<and> filterText m' = ''webq'') \<and>
   (\<exists>m'. Update plain_ui (KeyMsg ''esc'') model_filtering = Inr (m', NoCmd) \<and>
         \<not> filtering m' \<and> filterText m' = [] \<and> state m' = StateSelectingVM) \<and>
   state model_filtering_on_instance = StateSelectingVM \<and>
   filtering model_filtering_on_instance \<and>
   getCurrentNode plain_ui model_filtering_on_instance = Some node_web_1 \<and>
   Type node_web_1 = InstanceNode \<and>
   Update plain_ui (KeyMsg ''enter'') model_filtering_on_instance =
     Inr (model_filtering_on_instance
            \<lparr> selectedVM := Some vm_web_1, state := StateReadyToConnect \<rparr>, Quit)"
proof -
  have s: "state model_filtering = StateSelectingVM" "filtering model_filtering"
    by (simp_all add: model_filtering_def)
  have w: "well_formed (treeManager model_filtering)"
    by (simp add: model_filtering_def well_formed_def renderable_def node_web_fleet_def
        node_web_1_def node_web_2_def node_db_1_def)
  have q: "quitting model_filtering = False" "filterText model_filtering @ ''q'' = ''webq''"
    by (simp_all add: model_filtering_def)
  have s': "state model_filtering_on_instance = StateSelectingVM"
    "filtering model_filtering_on_instance"
    by (simp_all add: model_filtering_on_instance_def model_filtering_def)
  have g: "getCurrentNode plain_ui model_filtering_on_instance = Some node_web_1"
    by (simp add: getCurrentNode_def plain_ui_def model_filtering_on_instance_def
        model_filtering_def)
  have t: "Type node_web_1 = InstanceNode" "TreeNode.VM node_web_1 = Some vm_web_1"
    by (simp_all add: node_web_1_def)
  note K = filtering_keys_never_quit [OF s, of plain_ui "''q''"]
  note rest = K [THEN conjunct2, THEN conjunct2, THEN conjunct2]
  note rest' = rest [THEN conjunct2, THEN conjunct2, THEN conjunct2, THEN conjunct2]
  have c: "handleKeyPress plain_ui ''ctrl+c'' model_filtering = Inr (model_filtering, NoCmd)"
    by (rule rest [THEN conjunct1])
  have "\<exists>m'. Update plain_ui (KeyMsg ''q'') model_filtering = Inr (m', NoCmd) \<and>
      state m' = StateSelectingVM \<and> filtering m' \<and>
      quitting m' = quitting model_filtering \<and>
      filterText m' = filterText model_filtering @ ''q''"
    by (rule rest [THEN conjunct2, THEN conjunct1, THEN mp, OF w, THEN conjunct2])
  then have k: "\<exists>m'. Update plain_ui (KeyMsg ''q'') model_filtering = Inr (m', NoCmd) \<and>
         state m' = StateSelectingVM \<and> filtering m' \<and> \<not> quitting m' \<and> filterText m' = ''webq''"
    by (simp add: q)
  have e: "\<exists>m'. Update plain_ui (KeyMsg ''esc'') model_filtering = Inr (m', NoCmd) \<and>
         \<not> filtering m' \<and> filterText m' = [] \<and> state m' = StateSelectingVM"
    by (rule rest' [THEN conjunct1, THEN mp, OF w])
  note K' = filtering_keys_never_quit [OF s', of plain_ui "''enter''"]
  note enter = K' [THEN conjunct2, THEN conjunct2, THEN conjunct2, THEN conjunct2,
      THEN conjunct2, THEN conjunct2, THEN conjunct2, THEN conjunct2, THEN conjunct1]
  have "Update plain_ui (KeyMsg ''enter'') model_filtering_on_instance =
     Inr (model_filtering_on_instance
            \<lparr> selectedVM := TreeNode.VM node_web_1, state := StateReadyToConnect \<rparr>, Quit)"
    using enter g t(1) by blast
  then have n: "Update plain_ui (KeyMsg ''enter'') model_filtering_on_instance =
     Inr (model_filtering_on_instance
            \<lparr> selectedVM := Some vm_web_1, state := StateReadyToConnect \<rparr>, Quit)"
    by (simp add: t(2))
  show ?thesis
    using s w c k e s' g t(1) n by (intro conjI)
qed

subsection \<open>A failed load\<close>

text \<open>
  C8, what the code does. When the load fails in \<open>StateLoadingProjects\<close>, \<open>Update\<close>
  stores the error and changes nothing else, and every key but \<open>q\<close> and \<open>ctrl+c\<close>
  leaves the model as it is with no command. But \<open>View\<close> tests the state before it
  tests the error: with the error stored it still returns the loading screen, so the
  error line and its \<open>Press 'q' to quit\<close> are not shown.
\<close>

theorem load_error_is_not_shown:
  assumes "state m = StateLoadingProjects" and "\<not> quitting m"
  shows
    "Update ui (ErrorMsg e) m = Inr (m\<lparr> err := Some e \<rparr>, NoCmd) \<and>
     View ui (m\<lparr> err := Some e \<rparr>) =
       Inr (newline @ ''  Loading GCP projects...'' @ newline @ newline) \<and>
     Update ui (KeyMsg keypress) (m\<lparr> err := Some e \<rparr>) =
       Inr (if keypress = ''ctrl+c'' \<or> keypress = ''q''
            then (m\<lparr> err := Some e, quitting := True \<rparr>, Quit)
            else (m\<lparr> err := Some e \<rparr>, NoCmd))"
proof -
  have a: "Update ui (ErrorMsg e) m = Inr (m\<lparr> err := Some e \<rparr>, NoCmd)"
    by (simp add: Update_def)
  have b: "View ui (m\<lparr> err := Some e \<rparr>) =
       Inr (newline @ ''  Loading GCP projects...'' @ newline @ newline)"
    using assms by (simp add: View_def)
  have n: "\<not> shouldHandleNavigation (m\<lparr> err := Some e \<rparr>) keypress"
    using assms by (simp add: shouldHandleNavigation_def)
  have "handleKeyPress ui keypress (m\<lparr> err := Some e \<rparr>) =
       Inr (if keypress = ''ctrl+c'' \<or> keypress = ''q''
            then (m\<lparr> err := Some e, quitting := True \<rparr>, Quit)
            else (m\<lparr> err := Some e \<rparr>, NoCmd))"
    using assms by (auto simp: handleKeyPress_def handleGlobalKeys_def)
  then have c: "Update ui (KeyMsg keypress) (m\<lparr> err := Some e \<rparr>) =
       Inr (if keypress = ''ctrl+c'' \<or> keypress = ''q''
            then (m\<lparr> err := Some e, quitting := True \<rparr>, Quit)
            else (m\<lparr> err := Some e \<rparr>, NoCmd))"
    using n by (simp add: Update_def)
  from a b c show ?thesis by blast
qed

theorem load_error_is_not_shown_witness:
  "state (newModel plain_ui []) = StateLoadingProjects \<and> \<not> quitting (newModel plain_ui []) \<and>
   Update plain_ui (ErrorMsg ''failed to list projects: exit status 1'') (newModel plain_ui []) =
     Inr ((newModel plain_ui [])\<lparr> err := Some ''failed to list projects: exit status 1'' \<rparr>, NoCmd) \<and>
   View plain_ui ((newModel plain_ui [])\<lparr> err := Some ''failed to list projects: exit status 1'' \<rparr>) =
     Inr (newline @ ''  Loading GCP projects...'' @ newline @ newline)"
proof -
  have s: "state (newModel plain_ui []) = StateLoadingProjects" "\<not> quitting (newModel plain_ui [])"
    by (simp_all add: newModel_def Let_def)
  show ?thesis
    using load_error_is_not_shown [OF s, of plain_ui "''failed to list projects: exit status 1''"] s
    by simp
qed

section \<open>Properties of Filter over the store\<close>

subsection \<open>What the loop allocates and returns\<close>

lemma matching_children_at_eq:
  "\<forall>c \<in> set children. c < length st \<Longrightarrow>
   matching_children_at lower st fl children acc =
     Inr (acc @ filter (\<lambda>c. Contains (lower (Name_c (st ! c))) fl) children)"
  by (induction children arbitrary: acc) (auto simp: deref_def)

lemma result_ok_step:
  assumes "result_ok (st @ [cell]) (st @ [cell] @ ext) nodes p" "Type_c cell = GroupNode"
  shows "result_ok st (st @ [cell] @ ext) (node # nodes) p"
proof -
  have "p < length st" if "Type_c ((st @ [cell] @ ext) ! p) \<noteq> GroupNode" "p < Suc (length st)"
  proof (rule ccontr)
    assume "\<not> p < length st"
    then have "p = length st" using that(2) by simp
    then show False using that(1) assms(2) by (simp add: nth_append)
  qed
  then show ?thesis using assms(1) by (auto simp: result_ok_def)
qed

lemma result_ok_fresh:
  assumes "Type_c cell = GroupNode" "IsExpanded_c cell"
  shows "result_ok st (st @ [cell] @ ext) nodes (length st)"
  using assms by (simp add: result_ok_def nth_append)

lemma result_ok_kept:
  assumes "p < length st" "Type_c (st ! p) \<noteq> GroupNode"
  shows "result_ok st (st @ ext) (p # nodes) p"
  using assms by (simp add: result_ok_def nth_append)

lemma result_ok_Cons:
  "result_ok st st' nodes p \<Longrightarrow> result_ok st st' (node # nodes) p"
  by (auto simp: result_ok_def)

lemma filter_loop_at_frame:
  "filter_loop_at lower st fl nodes filtered = Inr (st', result) \<Longrightarrow>
   \<exists>ext new. st' = st @ ext \<and> result = filtered @ new \<and>
     (\<forall>p \<in> set new. result_ok st st' nodes p)"
proof (induction nodes arbitrary: st filtered)
  case Nil
  then show ?case by simp
next
  case (Cons node nodes)
  from Cons.prems obtain n where n: "node < length st" "n = st ! node"
    by (auto simp: deref_def split: if_splits)
  have grow: "\<exists>ext new. st' = st @ ext \<and> result = filtered @ new \<and>
     (\<forall>p \<in> set new. result_ok st st' (node # nodes) p)"
    if r: "filter_loop_at lower (st @ [cell]) fl nodes (filtered @ [length st]) = Inr (st', result)"
      and c: "Type_c cell = GroupNode" "IsExpanded_c cell" for cell
  proof -
    from Cons.IH [OF r] obtain ext new where e: "st' = (st @ [cell]) @ ext"
      "result = (filtered @ [length st]) @ new"
      "\<forall>p \<in> set new. result_ok (st @ [cell]) st' nodes p"
      by blast
    have "\<forall>p \<in> set (length st # new). result_ok st st' (node # nodes) p"
      using e(1,3) c result_ok_step [of st cell ext nodes _ node]
        result_ok_fresh [of cell st ext "node # nodes"]
      by auto
    moreover have "st' = st @ ([cell] @ ext)" "result = filtered @ (length st # new)"
      using e by simp_all
    ultimately show ?thesis by blast
  qed
  have same: "\<exists>ext new. st' = st @ ext \<and> result = filtered @ new \<and>
     (\<forall>p \<in> set new. result_ok st st' (node # nodes) p)"
    if r: "filter_loop_at lower st fl nodes filtered = Inr (st', result)"
  proof -
    from Cons.IH [OF r] obtain ext new where e: "st' = st @ ext" "result = filtered @ new"
      "\<forall>p \<in> set new. result_ok st st' nodes p"
      by blast
    then have "\<forall>p \<in> set new. result_ok st st' (node # nodes) p"
      by (simp add: result_ok_Cons)
    with e show ?thesis by blast
  qed
  have keep: "\<exists>ext new. st' = st @ ext \<and> result = filtered @ new \<and>
     (\<forall>p \<in> set new. result_ok st st' (node # nodes) p)"
    if r: "filter_loop_at lower st fl nodes (filtered @ [node]) = Inr (st', result)"
      and t: "Type_c n \<noteq> GroupNode"
  proof -
    from Cons.IH [OF r] obtain ext new where e: "st' = st @ ext"
      "result = (filtered @ [node]) @ new"
      "\<forall>p \<in> set new. result_ok st st' nodes p"
      by blast
    have "\<forall>p \<in> set (node # new). result_ok st st' (node # nodes) p"
      using e(1,3) n t result_ok_kept [of node st ext nodes] by (auto simp: result_ok_Cons)
    moreover have "result = filtered @ (node # new)" using e by simp
    ultimately show ?thesis using e(1) by blast
  qed
  show ?case
  proof (cases "Type_c n = GroupNode")
    case False
    then show ?thesis
      using Cons.prems n keep same by (auto simp: deref_def split: if_splits)
  next
    case True
    show ?thesis
    proof (cases "Contains (lower (Name_c n)) fl")
      case hit: True
      then show ?thesis
        using Cons.prems n True grow by (auto simp: deref_def alloc_def)
    next
      case miss: False
      then obtain mc where mc: "matching_children_at lower st fl (Children_c n) [] = Inr mc"
        using Cons.prems n True by (auto simp: deref_def split: sum.splits)
      show ?thesis
      proof (cases "length mc > 0")
        case True
        then show ?thesis
          using Cons.prems n \<open>Type_c n = GroupNode\<close> miss mc grow
          by (auto simp: deref_def alloc_def)
      next
        case False
        then show ?thesis
          using Cons.prems n \<open>Type_c n = GroupNode\<close> miss mc same
          by (auto simp: deref_def)
      qed
    qed
  qed
qed

subsection \<open>The values behind the pointers\<close>

lemma leaf_of_append: "c < length st \<Longrightarrow> leaf_of (st @ ext) c = leaf_of st c"
  by (simp add: leaf_of_def nth_append)

lemma node_of_append:
  assumes p: "p < length st" and c: "\<forall>c \<in> set (Children_c (st ! p)). c < length st"
  shows "node_of (st @ ext) p = node_of st p"
proof -
  have "map (leaf_of (st @ ext)) (Children_c (st ! p)) = map (leaf_of st) (Children_c (st ! p))"
    using c by (simp add: leaf_of_append)
  then show ?thesis using p by (simp add: node_of_def nth_append Let_def)
qed

lemma valid_nodes_append: "valid_nodes st nodes \<Longrightarrow> valid_nodes (st @ ext) nodes"
  unfolding valid_nodes_def by (simp add: nth_append) (meson trans_less_add1)

lemma valid_nodes_Cons:
  "valid_nodes st (p # nodes) \<longleftrightarrow>
     (p < length st \<and> (\<forall>c \<in> set (Children_c (st ! p)). c < length st)) \<and> valid_nodes st nodes"
  by (auto simp: valid_nodes_def)

lemma map_node_of_append:
  "valid_nodes st nodes \<Longrightarrow> map (node_of (st @ ext)) nodes = map (node_of st) nodes"
  by (induction nodes) (simp_all add: valid_nodes_Cons node_of_append)

lemma node_of_fresh:
  assumes "\<forall>c \<in> set (Children_c cell). c < length st"
  shows "node_of (st @ [cell] @ ext) (length st) =
     TreeNode (Type_c cell) (Name_c cell) (VM_c cell) (GroupName_c cell) (IsExpanded_c cell)
       (map (leaf_of st) (Children_c cell)) (Depth_c cell)"
proof -
  have "map (leaf_of (st @ [cell] @ ext)) (Children_c cell) = map (leaf_of st) (Children_c cell)"
    using assms by (simp add: leaf_of_append)
  then show ?thesis by (simp add: node_of_def nth_append Let_def)
qed

lemma filter_leaf_of:
  "filter (\<lambda>n. Contains (lower (TreeNode.Name n)) fl) (map (leaf_of st) cs) =
   map (leaf_of st) (filter (\<lambda>c. Contains (lower (Name_c (st ! c))) fl) cs)"
  by (induction cs) (simp_all add: leaf_of_def Let_def)

lemma node_of_sel:
  "Type (node_of st p) = Type_c (st ! p)" "TreeNode.Name (node_of st p) = Name_c (st ! p)"
  "GroupName (node_of st p) = GroupName_c (st ! p)" "Depth (node_of st p) = Depth_c (st ! p)"
  "Children (node_of st p) = map (leaf_of st) (Children_c (st ! p))"
  by (simp_all add: node_of_def Let_def)

lemma filter_loop_at_refines:
  "valid_nodes st nodes \<Longrightarrow>
   \<exists>ext new. filter_loop_at lower st fl nodes filtered = Inr (st @ ext, filtered @ new) \<and>
     map (node_of (st @ ext)) new = concat (map (filter_node lower fl) (map (node_of st) nodes))"
proof (induction nodes arbitrary: st filtered)
  case Nil
  have "filter_loop_at lower st fl [] filtered = Inr (st @ [], filtered @ [])" by simp
  then show ?case by fastforce
next
  case (Cons node nodes)
  let ?n = "st ! node"
  have v: "valid_nodes st nodes"
    and lt: "node < length st" and ch: "\<forall>c \<in> set (Children_c ?n). c < length st"
    using Cons.prems by (simp_all add: valid_nodes_Cons)
  have d: "deref st node = Inr ?n" using lt by (simp add: deref_def)
  let ?hit = "\<lambda>c. Contains (lower (Name_c (st ! c))) fl"
  have mc: "matching_children_at lower st fl (Children_c ?n) [] = Inr (filter ?hit (Children_c ?n))"
    using matching_children_at_eq [where children = "Children_c ?n" and st = st and lower = lower
        and fl = fl and acc = "[]"] ch by simp
  have same: "\<exists>ext new. filter_loop_at lower st fl nodes filtered = Inr (st @ ext, filtered @ new) \<and>
     map (node_of (st @ ext)) new = concat (map (filter_node lower fl) (map (node_of st) nodes))"
    using Cons.IH [OF v] by blast
  have keep: "\<exists>ext new.
     filter_loop_at lower st fl nodes (filtered @ [node]) = Inr (st @ ext, filtered @ new) \<and>
     map (node_of (st @ ext)) new =
       node_of st node # concat (map (filter_node lower fl) (map (node_of st) nodes))"
  proof -
    obtain ext new where e:
      "filter_loop_at lower st fl nodes (filtered @ [node]) = Inr (st @ ext, (filtered @ [node]) @ new)"
      "map (node_of (st @ ext)) new = concat (map (filter_node lower fl) (map (node_of st) nodes))"
      using Cons.IH [OF v, of "filtered @ [node]"] by blast
    have a: "map (node_of (st @ ext)) (node # new) =
       node_of st node # concat (map (filter_node lower fl) (map (node_of st) nodes))"
      using e(2) node_of_append [OF lt ch] by simp
    have b: "filter_loop_at lower st fl nodes (filtered @ [node]) =
       Inr (st @ ext, filtered @ (node # new))"
      using e(1) by simp
    show ?thesis
      apply (rule exI [of _ ext])
      apply (rule exI [of _ "node # new"])
      using a b by simp
  qed
  have grow: "\<exists>ext new.
     filter_loop_at lower (st @ [cell]) fl nodes (filtered @ [length st]) = Inr (st @ ext, filtered @ new) \<and>
     map (node_of (st @ ext)) new =
       TreeNode (Type_c cell) (Name_c cell) (VM_c cell) (GroupName_c cell) (IsExpanded_c cell)
         (map (leaf_of st) (Children_c cell)) (Depth_c cell)
       # concat (map (filter_node lower fl) (map (node_of st) nodes))"
    if c: "\<forall>c \<in> set (Children_c cell). c < length st" for cell
  proof -
    have v1: "valid_nodes (st @ [cell]) nodes" using v by (rule valid_nodes_append)
    obtain ext new where e:
      "filter_loop_at lower (st @ [cell]) fl nodes (filtered @ [length st]) =
         Inr ((st @ [cell]) @ ext, (filtered @ [length st]) @ new)"
      "map (node_of ((st @ [cell]) @ ext)) new =
         concat (map (filter_node lower fl) (map (node_of (st @ [cell])) nodes))"
      using Cons.IH [OF v1, of "filtered @ [length st]"] by blast
    have m: "map (node_of (st @ [cell])) nodes = map (node_of st) nodes"
      using v by (rule map_node_of_append)
    have e2: "map (node_of ((st @ [cell]) @ ext)) new =
         concat (map (filter_node lower fl) (map (node_of st) nodes))"
      using e(2) unfolding m .
    have a: "map (node_of (st @ ([cell] @ ext))) (length st # new) =
       TreeNode (Type_c cell) (Name_c cell) (VM_c cell) (GroupName_c cell) (IsExpanded_c cell)
         (map (leaf_of st) (Children_c cell)) (Depth_c cell)
       # concat (map (filter_node lower fl) (map (node_of st) nodes))"
      using e2 node_of_fresh [OF c, of ext] by simp
    have b: "filter_loop_at lower (st @ [cell]) fl nodes (filtered @ [length st]) =
       Inr (st @ ([cell] @ ext), filtered @ (length st # new))"
      using e(1) by simp
    show ?thesis
      apply (rule exI [of _ "[cell] @ ext"])
      apply (rule exI [of _ "length st # new"])
      using a b by simp
  qed
  show ?case
  proof (cases "Type_c ?n = GroupNode")
    case False
    then have fn: "filter_node lower fl (node_of st node) =
        (if Contains (lower (Name_c ?n)) fl then [node_of st node] else [])"
      by (simp add: filter_node_def node_of_sel Let_def)
    show ?thesis
      using d same keep False by (simp add: fn)
  next
    case True
    show ?thesis
    proof (cases "Contains (lower (Name_c ?n)) fl")
      case hit: True
      let ?cell = "NodeCell GroupNode (Name_c ?n) None (GroupName_c ?n) True (Children_c ?n)
         (Depth_c ?n)"
      have fn: "filter_node lower fl (node_of st node) =
          [TreeNode GroupNode (Name_c ?n) None (GroupName_c ?n) True
             (map (leaf_of st) (Children_c ?n)) (Depth_c ?n)]"
        using True hit by (simp add: filter_node_def derived_group_def node_of_sel Let_def)
      show ?thesis
        using grow [of ?cell] ch d True hit
        by (simp add: alloc_def fn)
    next
      case miss: False
      show ?thesis
      proof (cases "filter ?hit (Children_c ?n) = []")
        case True
        have fn: "filter_node lower fl (node_of st node) = []"
          using \<open>Type_c ?n = GroupNode\<close> miss True
          by (simp add: filter_node_def node_of_sel Let_def filter_leaf_of)
        show ?thesis
          using same d \<open>Type_c ?n = GroupNode\<close> miss mc True
          by (simp add: fn)
      next
        case False
        let ?cell = "NodeCell GroupNode (Name_c ?n) None (GroupName_c ?n) True
           (filter ?hit (Children_c ?n)) (Depth_c ?n)"
        have fn: "filter_node lower fl (node_of st node) =
          [TreeNode GroupNode (Name_c ?n) None (GroupName_c ?n) True
             (map (leaf_of st) (filter ?hit (Children_c ?n))) (Depth_c ?n)]"
          using \<open>Type_c ?n = GroupNode\<close> miss False
          by (simp add: filter_node_def derived_group_def node_of_sel Let_def filter_leaf_of)
        have "\<forall>c \<in> set (Children_c ?cell). c < length st" using ch by simp
        from grow [OF this] show ?thesis
          using d \<open>Type_c ?n = GroupNode\<close> miss mc False
          by (simp add: alloc_def fn)
      qed
    qed
  qed
qed

lemma store_prefix:
  assumes e: "st' = st @ ext"
  shows "\<forall>p < length st. p < length st' \<and> st' ! p = st ! p"
  unfolding e by (simp add: nth_append)

lemma result_ok_all:
  assumes "\<forall>p \<in> set result. result_ok st st' nodes p"
  shows "\<forall>p \<in> set result. p < length st' \<and>
            (Type_c (st' ! p) = GroupNode \<longrightarrow> length st \<le> p \<and> IsExpanded_c (st' ! p)) \<and>
            (Type_c (st' ! p) \<noteq> GroupNode \<longrightarrow> p \<in> set nodes \<and> p < length st)"
  using assms unfolding result_ok_def by blast

lemma Filter_at_empty: "Filter_at lower st nodes [] = Inr (st, nodes)"
  by (simp add: Filter_at_def)

lemma Filter_at_nonempty:
  "q \<noteq> [] \<Longrightarrow> Filter_at lower st nodes q = filter_loop_at lower st (lower q) nodes []"
  by (simp add: Filter_at_def)

lemma Filter_at_frame_a:
  assumes r: "Filter_at lower st nodes q = Inr (st', result)"
  shows "(\<forall>p < length st. p < length st' \<and> st' ! p = st ! p) \<and>
      (q = [] \<longrightarrow> st' = st \<and> result = nodes) \<and>
      (q \<noteq> [] \<longrightarrow>
         (\<forall>p \<in> set result. p < length st' \<and>
            (Type_c (st' ! p) = GroupNode \<longrightarrow> length st \<le> p \<and> IsExpanded_c (st' ! p)) \<and>
            (Type_c (st' ! p) \<noteq> GroupNode \<longrightarrow> p \<in> set nodes \<and> p < length st)))"
proof (cases "q = []")
  case True
  then have "st' = st" "result = nodes"
    using r by (simp_all add: Filter_at_empty)
  then show ?thesis using True by simp
next
  case False
  then have "filter_loop_at lower st (lower q) nodes [] = Inr (st', result)"
    using r by (simp add: Filter_at_nonempty)
  from filter_loop_at_frame [OF this]
  obtain ext new where e0: "st' = st @ ext" "result = [] @ new"
    "\<forall>p \<in> set new. result_ok st st' nodes p"
    by blast
  then have e: "\<forall>p \<in> set result. result_ok st st' nodes p"
    by simp
  show ?thesis
    using False store_prefix [OF e0(1)] result_ok_all [OF e] by blast
qed

lemma Filter_at_refines:
  assumes v: "valid_nodes st nodes"
  shows "\<exists>st'' result''. Filter_at lower st nodes q = Inr (st'', result'') \<and>
          map (node_of st'') result'' = Filter lower (map (node_of st) nodes) q \<and>
          map (node_of st'') nodes = map (node_of st) nodes"
proof (cases "q = []")
  case True
  have "Filter_at lower st nodes q = Inr (st, nodes)"
    using True by (simp add: Filter_at_empty)
  moreover have "map (node_of st) nodes = Filter lower (map (node_of st) nodes) q"
    using True by (simp add: Filter_def)
  ultimately show ?thesis
    by (intro exI [of _ st] exI [of _ nodes]) simp
next
  case False
  obtain ext new where e:
    "filter_loop_at lower st (lower q) nodes [] = Inr (st @ ext, [] @ new)"
    "map (node_of (st @ ext)) new =
       concat (map (filter_node lower (lower q)) (map (node_of st) nodes))"
    using filter_loop_at_refines [OF v, of lower "lower q" "[]"] by blast
  have x: "Filter_at lower st nodes q = Inr (st @ ext, new)"
    using e(1) False by (simp add: Filter_at_nonempty)
  have "Filter lower (map (node_of st) nodes) q =
      concat (map (filter_node lower (lower q)) (map (node_of st) nodes))"
    using False by (subst Filter_eq) simp
  then have y: "map (node_of (st @ ext)) new = Filter lower (map (node_of st) nodes) q"
    using e(2) by simp
  have z: "map (node_of (st @ ext)) nodes = map (node_of st) nodes"
    using v by (rule map_node_of_append)
  from x y z show ?thesis
    by (intro exI [of _ "st @ ext"] exI [of _ new] conjI)
qed

subsection \<open>The frame of Filter\<close>

text \<open>
  C9. \<open>Filter\<close> does not write to its input. When the call returns, every cell of the
  store before the call is in the store after it, unchanged: so every node of the input
  list, and every child, has its name, type, children, depth and expanded flag as
  before. With a query that is not empty, every pointer of the result that points to a
  group node points to a cell that the call allocated (it is not a cell of the store
  before, so not a node of the manager), and that cell is expanded; every other
  pointer of the result is a pointer of the input. With the empty query the store and
  the slice are returned as they are. Where the pointers of the input and of its
  children are valid, the call returns, the values behind the result are the result of
  \<open>Filter\<close> on the values behind the input, and the values behind the input are as
  before.
\<close>

theorem Filter_at_frame:
  "(Filter_at lower st nodes q = Inr (st', result) \<longrightarrow>
      (\<forall>p < length st. p < length st' \<and> st' ! p = st ! p) \<and>
      (q = [] \<longrightarrow> st' = st \<and> result = nodes) \<and>
      (q \<noteq> [] \<longrightarrow>
         (\<forall>p \<in> set result. p < length st' \<and>
            (Type_c (st' ! p) = GroupNode \<longrightarrow> length st \<le> p \<and> IsExpanded_c (st' ! p)) \<and>
            (Type_c (st' ! p) \<noteq> GroupNode \<longrightarrow> p \<in> set nodes \<and> p < length st)))) \<and>
   (valid_nodes st nodes \<longrightarrow>
      (\<exists>st'' result''. Filter_at lower st nodes q = Inr (st'', result'') \<and>
          map (node_of st'') result'' = Filter lower (map (node_of st) nodes) q \<and>
          map (node_of st'') nodes = map (node_of st) nodes))"
proof (rule conjI)
  show "Filter_at lower st nodes q = Inr (st', result) \<longrightarrow>
      (\<forall>p < length st. p < length st' \<and> st' ! p = st ! p) \<and>
      (q = [] \<longrightarrow> st' = st \<and> result = nodes) \<and>
      (q \<noteq> [] \<longrightarrow>
         (\<forall>p \<in> set result. p < length st' \<and>
            (Type_c (st' ! p) = GroupNode \<longrightarrow> length st \<le> p \<and> IsExpanded_c (st' ! p)) \<and>
            (Type_c (st' ! p) \<noteq> GroupNode \<longrightarrow> p \<in> set nodes \<and> p < length st)))"
    by (rule impI) (rule Filter_at_frame_a)
  show "valid_nodes st nodes \<longrightarrow>
      (\<exists>st'' result''. Filter_at lower st nodes q = Inr (st'', result'') \<and>
          map (node_of st'') result'' = Filter lower (map (node_of st) nodes) q \<and>
          map (node_of st'') nodes = map (node_of st) nodes)"
    by (rule impI) (rule Filter_at_refines)
qed

lemma example_store_nth:
  "example_store ! 2 = NodeCell GroupNode ''web-fleet'' None ''web-fleet'' False [0, 1] 0"
  "length example_store = 4"
  by (simp_all add: example_store_def)

theorem Filter_at_frame_witness:
  "valid_nodes example_store [2, 3] \<and>
   Filter_at ToLower_ascii example_store [2, 3] ''eb-2'' =
     Inr (example_store @ [NodeCell GroupNode ''web-fleet'' None ''web-fleet'' True [1] 0], [4]) \<and>
   (example_store @ [NodeCell GroupNode ''web-fleet'' None ''web-fleet'' True [1] 0]) ! 2 =
     example_store ! 2 \<and>
   length example_store \<le> 4 \<and>
   IsExpanded_c ((example_store @ [NodeCell GroupNode ''web-fleet'' None ''web-fleet'' True [1] 0]) ! 4) \<and>
   \<not> IsExpanded_c (example_store ! 2)"
proof -
  let ?st' = "example_store @ [NodeCell GroupNode ''web-fleet'' None ''web-fleet'' True [1] 0]"
  have v: "valid_nodes example_store [2, 3]"
    by code_simp
  have r: "Filter_at ToLower_ascii example_store [2, 3] ''eb-2'' = Inr (?st', [4])"
    by code_simp
  have q: "''eb-2'' \<noteq> []" "(2::nat) < length example_store"
    "Type_c (?st' ! 4) = GroupNode" "\<not> IsExpanded_c (example_store ! 2)"
    by (simp_all add: example_store_nth nth_append)
  note F = Filter_at_frame [of ToLower_ascii example_store "[2, 3]" "''eb-2''" ?st' "[4]",
      THEN conjunct1, rule_format, OF r]
  have "?st' ! 2 = example_store ! 2"
    using F [THEN conjunct1, rule_format, OF q(2)] by simp
  moreover have "length example_store \<le> 4 \<and> IsExpanded_c (?st' ! 4)"
    using F [THEN conjunct2, THEN conjunct2] q(1,3) by simp
  ultimately show ?thesis using v r q(4) by simp
qed

end
